theory Spec2Isabelle
  imports Complex_Main
begin

section \<open>pedigree.py: the data model\<close>

text \<open>
  The dataclass \<^verbatim>\<open>Horse\<close>. The two parent links are \<^verbatim>\<open>Optional[str]\<close>.
\<close>

record Horse =
  key :: string
  sire :: "string option"
  dam :: "string option"
  sex :: string
  color :: string
  year :: string
  details :: string
  url :: string
  name :: string
  is_placeholder :: bool

text \<open>
  The dataclass \<^verbatim>\<open>PedigreeNode\<close>. Its fields \<^verbatim>\<open>sire\<close> and \<^verbatim>\<open>dam\<close> are the
  selectors \<open>node_sire\<close> and \<open>node_dam\<close> here, since \<open>sire\<close> and \<open>dam\<close> are fields of
  \<open>Horse\<close> already. Python's integers are unbounded: \<open>int\<close>.
\<close>

datatype PedigreeNode =
  PedigreeNode
    (horse: Horse)
    (node_sire: "PedigreeNode option")
    (node_dam: "PedigreeNode option")
    (row_start: int)
    (row_end: int)
    (depth: int)

definition UNKNOWN_HORSE :: Horse where
  "UNKNOWN_HORSE =
     \<lparr>key = ''UNKNOWN'', sire = None, dam = None, sex = '''', color = '''', year = '''',
      details = '''', url = '''', name = ''Unknown'', is_placeholder = False\<rparr>"

definition placeholder_horse :: Horse where
  "placeholder_horse =
     \<lparr>key = '''', sire = None, dam = None, sex = '''', color = '''', year = '''',
      details = '''', url = '''', name = '''', is_placeholder = True\<rparr>"

section \<open>pedigree.py: the tree builder\<close>

text \<open>
  \<^verbatim>\<open>horses.get(sire_key) if sire_key else None\<close>: a parent link is followed only when it is
  neither \<^verbatim>\<open>None\<close> nor the empty string; a link with no record gives \<^verbatim>\<open>None\<close> as well.
\<close>

definition lookup_parent :: "(string \<rightharpoonup> Horse) \<Rightarrow> string option \<Rightarrow> Horse option" where
  "lookup_parent horses parent_key =
     (case parent_key of
        None \<Rightarrow> None
      | Some k \<Rightarrow> if k = [] then None else horses k)"

text \<open>\<^verbatim>\<open>if sire_horse is None: sire_horse = placeholder_horse()\<close>\<close>

definition or_placeholder :: "Horse option \<Rightarrow> Horse" where
  "or_placeholder h = (case h of None \<Rightarrow> placeholder_horse | Some x \<Rightarrow> x)"

text \<open>
  The inner function \<^verbatim>\<open>build_node\<close>; the variables \<^verbatim>\<open>horses\<close> and \<^verbatim>\<open>generations\<close> of its
  closure are its first two arguments. A new node has \<^verbatim>\<open>row_start = row_end = 0\<close>, the
  defaults of the dataclass. The recursion stops because \<^verbatim>\<open>generations - 1 - depth\<close>
  decreases.
\<close>

function build_node :: "(string \<rightharpoonup> Horse) \<Rightarrow> int \<Rightarrow> Horse \<Rightarrow> int \<Rightarrow> PedigreeNode" where
  "build_node horses generations h d =
     (if d < generations - 1 then
        (let sire_horse = or_placeholder (lookup_parent horses (sire h));
             dam_horse = or_placeholder (lookup_parent horses (dam h))
         in PedigreeNode h
              (Some (build_node horses generations sire_horse (d + 1)))
              (Some (build_node horses generations dam_horse (d + 1)))
              0 0 d)
      else PedigreeNode h None None 0 0 d)"
  by pat_completeness auto
termination
  by (relation "measure (\<lambda>(horses, generations, h, d). nat (generations - 1 - d))") auto

declare build_node.simps [simp del]

definition build_tree :: "(string \<rightharpoonup> Horse) \<Rightarrow> string \<Rightarrow> int \<Rightarrow> PedigreeNode" where
  "build_tree horses k generations =
     build_node horses generations
       (case horses k of None \<Rightarrow> UNKNOWN_HORSE | Some h \<Rightarrow> h) 0"

section \<open>pedigree.py: the layout assigner\<close>

text \<open>
  \<^verbatim>\<open>node.sire.row_start\<close> on a node whose \<^verbatim>\<open>sire\<close> is \<^verbatim>\<open>None\<close> raises in Python.
\<close>

datatype error = AttributeError

text \<open>
  \<^verbatim>\<open>assign_rows\<close> writes \<^verbatim>\<open>row_start\<close> and \<^verbatim>\<open>row_end\<close> into the nodes and returns the next
  leaf index; the model returns the updated node with it. A \<^verbatim>\<open>PedigreeNode\<close> object is
  always truthy, so \<^verbatim>\<open>if node.sire\<close> tests for \<^verbatim>\<open>None\<close>.
\<close>

fun assign_rows :: "PedigreeNode \<Rightarrow> int \<Rightarrow> int \<Rightarrow> error + (PedigreeNode \<times> int)" where
  "assign_rows (PedigreeNode h s d rs re dp) leaf_index generations =
     (if dp \<ge> generations - 1 \<or> (s = None \<and> d = None) then
        Inr (PedigreeNode h s d leaf_index leaf_index dp, leaf_index + 1)
      else
        (case (case s of
                 None \<Rightarrow> Inr (None, leaf_index)
               | Some sn \<Rightarrow>
                   (case assign_rows sn leaf_index generations of
                      Inl e \<Rightarrow> Inl e
                    | Inr (sn', li) \<Rightarrow> Inr (Some sn', li))) of
           Inl e \<Rightarrow> Inl e
         | Inr (s', li1) \<Rightarrow>
             (case (case d of
                      None \<Rightarrow> Inr (None, li1)
                    | Some dn \<Rightarrow>
                        (case assign_rows dn li1 generations of
                           Inl e \<Rightarrow> Inl e
                         | Inr (dn', li) \<Rightarrow> Inr (Some dn', li))) of
                Inl e \<Rightarrow> Inl e
              | Inr (d', li2) \<Rightarrow>
                  (case (case s' of
                           Some sn' \<Rightarrow> Inr (row_start sn')
                         | None \<Rightarrow>
                             (case d' of
                                Some dn' \<Rightarrow> Inr (row_start dn')
                              | None \<Rightarrow> Inl AttributeError)) of
                     Inl e \<Rightarrow> Inl e
                   | Inr rs' \<Rightarrow>
                       (case (case d' of
                                Some dn' \<Rightarrow> Inr (row_end dn')
                              | None \<Rightarrow>
                                  (case s' of
                                     Some sn' \<Rightarrow> Inr (row_end sn')
                                   | None \<Rightarrow> Inl AttributeError)) of
                          Inl e \<Rightarrow> Inl e
                        | Inr re' \<Rightarrow> Inr (PedigreeNode h s' d' rs' re' dp, li2))))))"

text \<open>
  The nodes of a tree in the order \<^verbatim>\<open>collect_cells\<close> visits them: the node, its sire's
  subtree, its dam's subtree.
\<close>

fun collect_nodes :: "PedigreeNode \<Rightarrow> PedigreeNode list" where
  "collect_nodes (PedigreeNode h s d rs re dp) =
     PedigreeNode h s d rs re dp
       # (case s of None \<Rightarrow> [] | Some sn \<Rightarrow> collect_nodes sn)
       @ (case d of None \<Rightarrow> [] | Some dn \<Rightarrow> collect_nodes dn)"

text \<open>The number of leaves (nodes with no child) of a subtree.\<close>

fun leaf_count :: "PedigreeNode \<Rightarrow> nat" where
  "leaf_count (PedigreeNode h s d rs re dp) =
     (if s = None \<and> d = None then 1
      else (case s of None \<Rightarrow> 0 | Some sn \<Rightarrow> leaf_count sn)
         + (case d of None \<Rightarrow> 0 | Some dn \<Rightarrow> leaf_count dn))"

text \<open>\<^verbatim>\<open>leaf_rows = 2 ** (generations - 1)\<close> of \<^verbatim>\<open>render_pedigree\<close>, for \<^verbatim>\<open>generations >= 1\<close>.\<close>

definition leaf_rows :: "int \<Rightarrow> int" where
  "leaf_rows generations = 2 ^ nat (generations - 1)"

section \<open>pedigree.py: labels\<close>

text \<open>Python's \<^verbatim>\<open>" ".join(parts)\<close>.\<close>

definition join_space :: "string list \<Rightarrow> string" where
  "join_space parts =
     (case parts of [] \<Rightarrow> [] | p # ps \<Rightarrow> foldl (\<lambda>acc q. acc @ '' '' @ q) p ps)"

text \<open>
  \<^verbatim>\<open>horse_label\<close>: the text shown in a cell. The character \<open>CHR 0x22\<close> is the double
  quote of \<^verbatim>\<open>class="meta"\<close>.
\<close>

definition horse_label :: "Horse \<Rightarrow> string" where
  "horse_label h =
     (if is_placeholder h then ''&nbsp;''
      else
        (let nm = (if name h \<noteq> [] then name h else key h);
             extras = join_space (filter (\<lambda>part. part \<noteq> []) [year h, color h]);
             extras = (if details h \<noteq> []
                       then join_space (filter (\<lambda>part. part \<noteq> []) [extras, details h])
                       else extras)
         in if extras \<noteq> []
            then nm @ ''<br><span class='' @ [CHR 0x22] @ ''meta'' @ [CHR 0x22] @ ''>''
                   @ extras @ ''</span>''
            else nm))"

section \<open>Predicates on nodes\<close>

text \<open>
  What \<^verbatim>\<open>build_node\<close> does at one node: below the last generation it attaches both
  children, one generation further, carrying the parents' records or the placeholder;
  at the last generation it attaches none.
\<close>

definition expanded :: "(string \<rightharpoonup> Horse) \<Rightarrow> int \<Rightarrow> PedigreeNode \<Rightarrow> bool" where
  "expanded horses G n \<longleftrightarrow>
     (if depth n < G - 1 then
        (\<exists>s dn. node_sire n = Some s \<and> node_dam n = Some dn
           \<and> depth s = depth n + 1 \<and> depth dn = depth n + 1
           \<and> horse s = or_placeholder (lookup_parent horses (sire (horse n)))
           \<and> horse dn = or_placeholder (lookup_parent horses (dam (horse n))))
      else node_sire n = None \<and> node_dam n = None)"

text \<open>
  The span of one node of a laid-out tree: the rows \<open>row_start n .. row_end n\<close>, as many
  as the subtree has leaves; one row for a leaf; for an inner node the sire's rows
  followed at once by the dam's rows.
\<close>

definition span_ok :: "PedigreeNode \<Rightarrow> bool" where
  "span_ok n \<longleftrightarrow>
     row_start n \<le> row_end n
     \<and> row_end n - row_start n + 1 = int (leaf_count n)
     \<and> (node_sire n = None \<and> node_dam n = None \<longrightarrow> row_end n = row_start n)
     \<and> (node_sire n = None \<longleftrightarrow> node_dam n = None)
     \<and> (\<forall>s dn. node_sire n = Some s \<and> node_dam n = Some dn \<longrightarrow>
           row_start n = row_start s \<and> row_start dn = row_end s + 1 \<and> row_end n = row_end dn)"

text \<open>
  A laid-out tree with its spans reset to the defaults of the dataclass: what the tree
  was before \<^verbatim>\<open>assign_rows\<close> wrote into it.
\<close>

fun clear_rows :: "PedigreeNode \<Rightarrow> PedigreeNode" where
  "clear_rows (PedigreeNode h s d rs re dp) =
     PedigreeNode h (map_option clear_rows s) (map_option clear_rows d) 0 0 dp"

section \<open>Example data for the tree builder\<close>

text \<open>
  Three records: \<open>S\<close> with sire \<open>F\<close> and no dam; \<open>F\<close> with sire \<open>G\<close> and a dam \<open>H\<close>
  that has no record; \<open>G\<close> with no parents.
\<close>

definition example_horses :: "string \<rightharpoonup> Horse" where
  "example_horses =
     [''S'' \<mapsto> \<lparr>key = ''S'', sire = Some ''F'', dam = None, sex = ''M'', color = '''',
                year = '''', details = '''', url = '''', name = ''S'', is_placeholder = False\<rparr>,
      ''F'' \<mapsto> \<lparr>key = ''F'', sire = Some ''G'', dam = Some ''H'', sex = ''M'', color = '''',
                year = '''', details = '''', url = '''', name = ''F'', is_placeholder = False\<rparr>,
      ''G'' \<mapsto> \<lparr>key = ''G'', sire = None, dam = None, sex = ''M'', color = '''',
                year = '''', details = '''', url = '''', name = ''G'', is_placeholder = False\<rparr>]"

section \<open>make_pedigree.py: the record store\<close>

text \<open>
  A row of the CSV file is a dictionary from column names to strings, and \<^verbatim>\<open>by_pk\<close> is a
  dictionary from primary keys to rows. Both are association lists read with \<open>map_of\<close>:
  a Python dictionary is finite, and the recursion of \<^verbatim>\<open>depth_for\<close> below stops only
  because it is.
\<close>

type_synonym row = "(string \<times> string) list"

type_synonym store = "(string \<times> row) list"

text \<open>
  The characters that \<^verbatim>\<open>str.strip()\<close> removes, among the ASCII characters: tab, line
  feed, vertical tab, form feed, carriage return, the four separators \<open>0x1C .. 0x1F\<close>
  and the space. A \<open>char\<close> is a byte here, so whitespace beyond ASCII is not stripped.
\<close>

definition is_space :: "char \<Rightarrow> bool" where
  "is_space c \<longleftrightarrow>
     c \<in> set [CHR 0x09, CHR 0x0A, CHR 0x0B, CHR 0x0C, CHR 0x0D,
              CHR 0x1C, CHR 0x1D, CHR 0x1E, CHR 0x1F, CHR 0x20]"

definition strip :: "string \<Rightarrow> string" where
  "strip s = rev (dropWhile is_space (rev (dropWhile is_space s)))"

text \<open>
  \<^verbatim>\<open>(data.get(col) or "").strip()\<close>. A missing column and a column holding \<^verbatim>\<open>None\<close>
  both give the empty string, so a row stores neither.
\<close>

definition field :: "row \<Rightarrow> string \<Rightarrow> string" where
  "field data col = strip (case map_of data col of None \<Rightarrow> [] | Some v \<Rightarrow> v)"

section \<open>make_pedigree.py: the depth resolver\<close>

text \<open>
  The inner function \<^verbatim>\<open>depth_for\<close> of \<^verbatim>\<open>compute_max_depth\<close>, the same in
  \<^verbatim>\<open>make_pedigree.py\<close> and \<^verbatim>\<open>make_pedigree_image.py\<close>. The dictionary \<^verbatim>\<open>memo\<close> is
  threaded through the calls: the function takes it and returns it updated. The set
  \<^verbatim>\<open>visiting\<close> is an argument: every path through the Python function that adds
  \<^verbatim>\<open>node_pk\<close> removes it again before it returns, and \<^verbatim>\<open>node_pk\<close> was not in the set
  before, so a call leaves the set as it found it. \<^verbatim>\<open>max(depths)\<close> is the fold of
  \<open>max\<close> over the list, which starts with 0.

  The recursion stops because a recursive call is made only for a key of \<^verbatim>\<open>by_pk\<close>
  that is not in \<^verbatim>\<open>visiting\<close>, and with that key added: the number of keys outside
  \<^verbatim>\<open>visiting\<close> decreases.
\<close>

function depth_for ::
  "store \<Rightarrow> string set \<Rightarrow> (string \<rightharpoonup> int) \<Rightarrow> string \<Rightarrow> int \<times> (string \<rightharpoonup> int)" where
  "depth_for by_pk visiting memo node_pk =
     (case memo node_pk of
        Some d \<Rightarrow> (d, memo)
      | None \<Rightarrow>
          if node_pk \<in> visiting then (0, memo)
          else
            (case map_of by_pk node_pk of
               None \<Rightarrow> (0, memo(node_pk \<mapsto> 0))
             | Some data \<Rightarrow>
                 (case (if field data ''Sire'' \<noteq> []
                        then (case depth_for by_pk (insert node_pk visiting) memo
                                     (field data ''Sire'') of
                                (d, memo1) \<Rightarrow> ([0, 1 + d], memo1))
                        else ([0], memo)) of
                    (depths1, memo1) \<Rightarrow>
                      (case (if field data ''Dam'' \<noteq> []
                             then (case depth_for by_pk (insert node_pk visiting) memo1
                                          (field data ''Dam'') of
                                     (d, memo2) \<Rightarrow> (depths1 @ [1 + d], memo2))
                             else (depths1, memo1)) of
                         (depths2, memo2) \<Rightarrow>
                           (let max_depth = fold max (tl depths2) (hd depths2)
                            in (max_depth, memo2(node_pk \<mapsto> max_depth)))))))"
  by pat_completeness auto
termination
proof (relation "measure (\<lambda>(by_pk, visiting, memo, node_pk).
                   card (fst ` set by_pk - visiting))")
  show "wf (measure (\<lambda>(by_pk, visiting, memo, node_pk).
                   card (fst ` set by_pk - visiting)))"
    by simp
next
  fix by_pk :: store and visiting :: "string set" and memo :: "string \<rightharpoonup> int"
    and node_pk :: string and data :: row
  assume "node_pk \<notin> visiting" and "map_of by_pk node_pk = Some data"
  then have "node_pk \<in> fst ` set by_pk - visiting"
    by (auto dest: map_of_SomeD intro: rev_image_eqI)
  then have "card (fst ` set by_pk - insert node_pk visiting)
      < card (fst ` set by_pk - visiting)"
    by (intro psubset_card_mono) auto
  then show "((by_pk, insert node_pk visiting, memo, field data ''Sire''),
              (by_pk, visiting, memo, node_pk))
      \<in> measure (\<lambda>(by_pk, visiting, memo, node_pk). card (fst ` set by_pk - visiting))"
    by simp
next
  fix by_pk :: store and visiting :: "string set" and memo memo1 :: "string \<rightharpoonup> int"
    and node_pk :: string and data :: row
  assume "node_pk \<notin> visiting" and "map_of by_pk node_pk = Some data"
  then have "node_pk \<in> fst ` set by_pk - visiting"
    by (auto dest: map_of_SomeD intro: rev_image_eqI)
  then have "card (fst ` set by_pk - insert node_pk visiting)
      < card (fst ` set by_pk - visiting)"
    by (intro psubset_card_mono) auto
  then show "((by_pk, insert node_pk visiting, memo1, field data ''Dam''),
              (by_pk, visiting, memo, node_pk))
      \<in> measure (\<lambda>(by_pk, visiting, memo, node_pk). card (fst ` set by_pk - visiting))"
    by simp
qed

declare depth_for.simps [simp del]

definition compute_max_depth :: "string \<Rightarrow> store \<Rightarrow> int" where
  "compute_max_depth pk by_pk = fst (depth_for by_pk {} Map.empty pk)"

text \<open>
  The recursion that the contract of the depth resolver describes, with no memo: an
  identifier on the current path counts 0, a missing record counts 0, and otherwise
  the result is the maximum of 0, one more than the depth of the sire (if there is a
  sire link) and one more than the depth of the dam (if there is a dam link).
\<close>

function depth_on_path :: "store \<Rightarrow> string set \<Rightarrow> string \<Rightarrow> int" where
  "depth_on_path by_pk visiting node_pk =
     (if node_pk \<in> visiting then 0
      else
        (case map_of by_pk node_pk of
           None \<Rightarrow> 0
         | Some data \<Rightarrow>
             max 0
               (max (if field data ''Sire'' \<noteq> []
                     then 1 + depth_on_path by_pk (insert node_pk visiting) (field data ''Sire'')
                     else 0)
                    (if field data ''Dam'' \<noteq> []
                     then 1 + depth_on_path by_pk (insert node_pk visiting) (field data ''Dam'')
                     else 0))))"
  by pat_completeness auto
termination
proof (relation "measure (\<lambda>(by_pk, visiting, node_pk). card (fst ` set by_pk - visiting))")
  show "wf (measure (\<lambda>(by_pk, visiting, node_pk). card (fst ` set by_pk - visiting)))"
    by simp
next
  fix by_pk :: store and visiting :: "string set" and node_pk :: string and data :: row
  assume "node_pk \<notin> visiting" and "map_of by_pk node_pk = Some data"
  then have "node_pk \<in> fst ` set by_pk - visiting"
    by (auto dest: map_of_SomeD intro: rev_image_eqI)
  then have "card (fst ` set by_pk - insert node_pk visiting)
      < card (fst ` set by_pk - visiting)"
    by (intro psubset_card_mono) auto
  then show "((by_pk, insert node_pk visiting, field data ''Sire''), (by_pk, visiting, node_pk))
      \<in> measure (\<lambda>(by_pk, visiting, node_pk). card (fst ` set by_pk - visiting))"
    and "((by_pk, insert node_pk visiting, field data ''Dam''), (by_pk, visiting, node_pk))
      \<in> measure (\<lambda>(by_pk, visiting, node_pk). card (fst ` set by_pk - visiting))"
    by simp_all
qed

declare depth_on_path.simps [simp del]

section \<open>make_pedigree.py: the inbreeding analyzer\<close>

text \<open>
  One recorded occurrence, \<^verbatim>\<open>{"gen": gen, "path": new_path}\<close>, and the dictionary
  \<^verbatim>\<open>occurrences\<close> from an identifier to the list of its occurrences. A Python dictionary
  keeps its keys in the order they were first stored, and the loops below run over the
  keys in that order: the dictionary is an association list.
\<close>

record occ =
  gen :: int
  path :: "string list"

type_synonym 'o occs = "(string \<times> 'o list) list"

text \<open>\<^verbatim>\<open>d.setdefault(k, []).append(x)\<close>\<close>

fun setdefault_append :: "('k \<times> 'v list) list \<Rightarrow> 'k \<Rightarrow> 'v \<Rightarrow> ('k \<times> 'v list) list" where
  "setdefault_append [] k x = [(k, [x])]"
| "setdefault_append ((k', xs) # rest) k x =
     (if k' = k then (k', xs @ [x]) # rest else (k', xs) # setdefault_append rest k x)"

text \<open>
  The inner function \<^verbatim>\<open>walk\<close>; \<^verbatim>\<open>by_pk\<close> and \<^verbatim>\<open>max_depth\<close> of its closure are its first
  two arguments. The dictionary \<^verbatim>\<open>occurrences\<close> is threaded through the calls. The set
  \<^verbatim>\<open>visiting\<close> is an argument, as in \<open>depth_for\<close>: a call that adds \<^verbatim>\<open>node_pk\<close> removes it
  before it returns. The recursion stops because \<^verbatim>\<open>max_depth - gen\<close> decreases.
\<close>

function walk ::
  "store \<Rightarrow> int \<Rightarrow> string \<Rightarrow> int \<Rightarrow> string list \<Rightarrow> string set \<Rightarrow> occ occs \<Rightarrow> occ occs" where
  "walk by_pk max_depth node_pk g p visiting occurrences =
     (if g > max_depth then occurrences
      else if node_pk \<in> visiting then occurrences
      else
        (let new_path = p @ [node_pk];
             occurrences1 =
               setdefault_append occurrences node_pk \<lparr>gen = g, path = new_path\<rparr>
         in case map_of by_pk node_pk of
              None \<Rightarrow> occurrences1
            | Some data \<Rightarrow>
                if g < max_depth then
                  (let occurrences2 =
                         (if field data ''Sire'' \<noteq> []
                          then walk by_pk max_depth (field data ''Sire'') (g + 1) new_path
                                 (insert node_pk visiting) occurrences1
                          else occurrences1)
                   in if field data ''Dam'' \<noteq> []
                      then walk by_pk max_depth (field data ''Dam'') (g + 1) new_path
                             (insert node_pk visiting) occurrences2
                      else occurrences2)
                else occurrences1))"
  by pat_completeness auto
termination
  by (relation "measure (\<lambda>(by_pk, max_depth, node_pk, g, p, visiting, occurrences).
                  nat (max_depth + 1 - g))") auto

declare walk.simps [simp del]

text \<open>
  The first part of \<^verbatim>\<open>collect_inbreeding\<close>: the walks from the subject's sire and dam,
  at generation 1, with an empty path and a fresh \<^verbatim>\<open>visiting\<close> set each. \<^verbatim>\<open>if data:\<close>
  is false for a missing record and for an empty row.
\<close>

definition collect_occurrences :: "string \<Rightarrow> store \<Rightarrow> int \<Rightarrow> occ occs" where
  "collect_occurrences pk by_pk max_depth =
     (case map_of by_pk pk of
        None \<Rightarrow> []
      | Some data \<Rightarrow>
          if data = [] then []
          else
            (let occurrences1 =
                   (if field data ''Sire'' \<noteq> []
                    then walk by_pk max_depth (field data ''Sire'') 1 [] {} []
                    else [])
             in if field data ''Dam'' \<noteq> []
                then walk by_pk max_depth (field data ''Dam'') 1 [] {} occurrences1
                else occurrences1))"

text \<open>
  An entry of \<^verbatim>\<open>inbred\<close>. The percentage is a Python float. It is an exact rational
  here: \<^verbatim>\<open>0.5 ** g\<close> is a power of two, and for the generations of a pedigree chart the
  sum of a few of them and its product with 100 have a short binary expansion, which
  a float holds exactly.
\<close>

record inbred_entry =
  gens :: "int list"
  percentage :: rat
  paths :: "string list list"

type_synonym inbred = "(string \<times> inbred_entry) list"

text \<open>\<^verbatim>\<open>d[k] = v\<close> on a dictionary in insertion order.\<close>

fun dict_set :: "('k \<times> 'v) list \<Rightarrow> 'k \<Rightarrow> 'v \<Rightarrow> ('k \<times> 'v) list" where
  "dict_set [] k v = [(k, v)]"
| "dict_set ((k', v') # rest) k v =
     (if k' = k then (k', v) # rest else (k', v') # dict_set rest k v)"

text \<open>
  The body of the aggregation loop for the occurrences of one ancestor:
  \<^verbatim>\<open>sum((0.5**g) for g in gens) * 100.0\<close>, \<^verbatim>\<open>sorted(gens, reverse=True)\<close> and the paths.
  The percentage is the exact rational value of the sum. The Python value is a binary64
  float: it is this rational as long as no operation rounds, which holds for every
  bound up to 46 (\<open>float_percentage\<close> below is the float computation, and
  \<open>chains_to_percentage\<close> the comparison); beyond that the two can differ in the last
  bits, and no statement about the percentage is made there.
\<close>

definition make_entry :: "'a occ_scheme list \<Rightarrow> inbred_entry" where
  "make_entry os =
     (let gs = map gen os
      in \<lparr>gens = rev (sort gs),
          percentage = sum_list (map (\<lambda>g. (1 / 2) powi g) gs) * 100,
          paths = map path os\<rparr>)"

text \<open>
  The loop \<^verbatim>\<open>for ancestor, occs in occurrences.items()\<close>, with \<^verbatim>\<open>inbred\<close> as its state.
\<close>

fun aggregate :: "'a occ_scheme occs \<Rightarrow> inbred \<Rightarrow> inbred" where
  "aggregate [] inbred = inbred"
| "aggregate ((ancestor, os) # rest) inbred =
     (if length os < 2 then aggregate rest inbred
      else aggregate rest (dict_set inbred ancestor (make_entry os)))"

text \<open>
  What the subsumption loops can raise: \<^verbatim>\<open>inbred[ancestor]\<close> on a missing key and
  \<^verbatim>\<open>path.index(x)\<close> on a path that does not hold \<^verbatim>\<open>x\<close>.
\<close>

datatype lookup_error = KeyError | ValueError

text \<open>\<^verbatim>\<open>xs.index(x)\<close>: the first position of \<^verbatim>\<open>x\<close>.\<close>

fun py_index :: "'a list \<Rightarrow> 'a \<Rightarrow> lookup_error + nat" where
  "py_index [] x = Inl ValueError"
| "py_index (y # ys) x =
     (if y = x then Inr 0
      else (case py_index ys x of Inl e \<Rightarrow> Inl e | Inr i \<Rightarrow> Inr (Suc i)))"

text \<open>
  The innermost loop, over the paths of \<^verbatim>\<open>ancestor\<close>: the final value of
  \<^verbatim>\<open>all_contained\<close>. \<^verbatim>\<open>path.index(other)\<close> is evaluated before \<^verbatim>\<open>path.index(ancestor)\<close>.
\<close>

fun all_contained :: "string \<Rightarrow> string \<Rightarrow> string list list \<Rightarrow> lookup_error + bool" where
  "all_contained ancestor other [] = Inr True"
| "all_contained ancestor other (p # ps) =
     (if other \<notin> set p then Inr False
      else
        (case py_index p other of
           Inl e \<Rightarrow> Inl e
         | Inr i \<Rightarrow>
             (case py_index p ancestor of
                Inl e \<Rightarrow> Inl e
              | Inr j \<Rightarrow> if i > j then Inr False else all_contained ancestor other ps)))"

text \<open>
  The loop \<^verbatim>\<open>for other in candidates\<close> for one \<^verbatim>\<open>ancestor\<close>: whether it adds \<^verbatim>\<open>ancestor\<close>
  to \<^verbatim>\<open>subsumed\<close> (and breaks).
\<close>

fun subsumed_by_any :: "inbred \<Rightarrow> string \<Rightarrow> string list \<Rightarrow> lookup_error + bool" where
  "subsumed_by_any inbred ancestor [] = Inr False"
| "subsumed_by_any inbred ancestor (other # others) =
     (if ancestor = other then subsumed_by_any inbred ancestor others
      else
        (case map_of inbred ancestor of
           None \<Rightarrow> Inl KeyError
         | Some entry \<Rightarrow>
             (case all_contained ancestor other (paths entry) of
                Inl e \<Rightarrow> Inl e
              | Inr True \<Rightarrow> Inr True
              | Inr False \<Rightarrow> subsumed_by_any inbred ancestor others)))"

text \<open>
  The loop \<^verbatim>\<open>for ancestor in candidates\<close>, with the set \<^verbatim>\<open>subsumed\<close> as its state; the
  second argument is the whole list \<^verbatim>\<open>candidates\<close>, the third what is left of it.
\<close>

fun subsume_loop ::
  "inbred \<Rightarrow> string list \<Rightarrow> string list \<Rightarrow> string set \<Rightarrow> lookup_error + string set" where
  "subsume_loop inbred candidates [] subsumed = Inr subsumed"
| "subsume_loop inbred candidates (ancestor # rest) subsumed =
     (case subsumed_by_any inbred ancestor candidates of
        Inl e \<Rightarrow> Inl e
      | Inr True \<Rightarrow> subsume_loop inbred candidates rest (insert ancestor subsumed)
      | Inr False \<Rightarrow> subsume_loop inbred candidates rest subsumed)"

text \<open>The last part of \<^verbatim>\<open>collect_inbreeding\<close>: \<^verbatim>\<open>candidates = list(inbred.keys())\<close>.\<close>

definition find_subsumed :: "inbred \<Rightarrow> lookup_error + string set" where
  "find_subsumed inbred = subsume_loop inbred (map fst inbred) (map fst inbred) {}"

definition collect_inbreeding ::
  "string \<Rightarrow> store \<Rightarrow> int \<Rightarrow> lookup_error + (inbred \<times> string set)" where
  "collect_inbreeding pk by_pk max_depth =
     (let inbred = aggregate (collect_occurrences pk by_pk max_depth) []
      in case find_subsumed inbred of
           Inl e \<Rightarrow> Inl e
         | Inr subsumed \<Rightarrow> Inr (inbred, subsumed))"

text \<open>
  \<^verbatim>\<open>write_excel\<close>: \<^verbatim>\<open>inbred_pks = set(inbred.keys()) - subsumed\<close>, the ancestors of the
  final report.
\<close>

definition inbred_pks :: "inbred \<Rightarrow> string set \<Rightarrow> string set" where
  "inbred_pks inbred subsumed = fst ` set inbred - subsumed"

section \<open>make_pedigree_image.py: the inbreeding analyzer with branch sides\<close>

text \<open>
  \<^verbatim>\<open>collect_inbreeding\<close> of \<^verbatim>\<open>make_pedigree_image.py\<close> is the function above with a third
  field, \<^verbatim>\<open>"side"\<close>, in every occurrence: \<^verbatim>\<open>"Sire"\<close> or \<^verbatim>\<open>"Dam"\<close>, the top-level branch of
  the walk. Its aggregation loop and its subsumption loops are the same text, so
  \<open>make_entry\<close>, \<open>aggregate\<close> and \<open>find_subsumed\<close> serve both; it returns a third
  dictionary, \<^verbatim>\<open>inbred_types\<close>.
\<close>

record occ_side = occ +
  side :: string

function walk_side ::
  "store \<Rightarrow> int \<Rightarrow> string \<Rightarrow> int \<Rightarrow> string list \<Rightarrow> string set \<Rightarrow> string
     \<Rightarrow> occ_side occs \<Rightarrow> occ_side occs" where
  "walk_side by_pk max_depth node_pk g p visiting sd occurrences =
     (if g > max_depth then occurrences
      else if node_pk \<in> visiting then occurrences
      else
        (let new_path = p @ [node_pk];
             occurrences1 =
               setdefault_append occurrences node_pk \<lparr>gen = g, path = new_path, side = sd\<rparr>
         in case map_of by_pk node_pk of
              None \<Rightarrow> occurrences1
            | Some data \<Rightarrow>
                if g < max_depth then
                  (let occurrences2 =
                         (if field data ''Sire'' \<noteq> []
                          then walk_side by_pk max_depth (field data ''Sire'') (g + 1) new_path
                                 (insert node_pk visiting) sd occurrences1
                          else occurrences1)
                   in if field data ''Dam'' \<noteq> []
                      then walk_side by_pk max_depth (field data ''Dam'') (g + 1) new_path
                             (insert node_pk visiting) sd occurrences2
                      else occurrences2)
                else occurrences1))"
  by pat_completeness auto
termination
  by (relation "measure (\<lambda>(by_pk, max_depth, node_pk, g, p, visiting, sd, occurrences).
                  nat (max_depth + 1 - g))") auto

declare walk_side.simps [simp del]

definition collect_occurrences_side :: "string \<Rightarrow> store \<Rightarrow> int \<Rightarrow> occ_side occs" where
  "collect_occurrences_side pk by_pk max_depth =
     (case map_of by_pk pk of
        None \<Rightarrow> []
      | Some data \<Rightarrow>
          if data = [] then []
          else
            (let occurrences1 =
                   (if field data ''Sire'' \<noteq> []
                    then walk_side by_pk max_depth (field data ''Sire'') 1 [] {} ''Sire'' []
                    else [])
             in if field data ''Dam'' \<noteq> []
                then walk_side by_pk max_depth (field data ''Dam'') 1 [] {} ''Dam'' occurrences1
                else occurrences1))"

text \<open>
  \<^verbatim>\<open>sides = {occ["side"] for occ in occs}\<close> and the three-way test on it.
\<close>

definition branch_type :: "occ_side list \<Rightarrow> string" where
  "branch_type os =
     (let sides = set (map side os)
      in if sides = {''Sire''} then ''sire''
         else if sides = {''Dam''} then ''dam''
         else ''both'')"

fun aggregate_types :: "occ_side occs \<Rightarrow> (string \<times> string) list \<Rightarrow> (string \<times> string) list" where
  "aggregate_types [] inbred_types = inbred_types"
| "aggregate_types ((ancestor, os) # rest) inbred_types =
     (if length os < 2 then aggregate_types rest inbred_types
      else aggregate_types rest (dict_set inbred_types ancestor (branch_type os)))"

definition collect_inbreeding_image ::
  "string \<Rightarrow> store \<Rightarrow> int \<Rightarrow> lookup_error + (inbred \<times> string set \<times> (string \<times> string) list)" where
  "collect_inbreeding_image pk by_pk max_depth =
     (let occurrences = collect_occurrences_side pk by_pk max_depth;
          inbred = aggregate occurrences [];
          inbred_types = aggregate_types occurrences []
      in case find_subsumed inbred of
           Inl e \<Rightarrow> Inl e
         | Inr subsumed \<Rightarrow> Inr (inbred, subsumed, inbred_types))"

section \<open>The occurrences as a list\<close>

text \<open>
  The parent links of an identifier, sire before dam: the non-empty ones among the
  stripped \<^verbatim>\<open>Sire\<close> and \<^verbatim>\<open>Dam\<close> columns of its record; none for an identifier with no
  record.
\<close>

definition parent_links :: "store \<Rightarrow> string \<Rightarrow> string list" where
  "parent_links by_pk k =
     (case map_of by_pk k of
        None \<Rightarrow> []
      | Some data \<Rightarrow> filter (\<lambda>x. x \<noteq> []) [field data ''Sire'', field data ''Dam''])"

text \<open>
  The occurrences in the order in which the calls of \<^verbatim>\<open>walk\<close> append them, as one
  list: \<^verbatim>\<open>walk\<close> with the dictionary left out. It follows the recursion of \<^verbatim>\<open>walk\<close>
  and serves the proofs only (\<open>walk\<close> is the fold of \<open>record_occurrence\<close> over this
  list); what the list holds is stated with \<open>chain_occurrences\<close> below, which does not
  follow that recursion.
\<close>

function lineage :: "store \<Rightarrow> int \<Rightarrow> string \<Rightarrow> int \<Rightarrow> string list \<Rightarrow> string set \<Rightarrow> occ list" where
  "lineage by_pk max_depth node_pk g p visiting =
     (if g > max_depth \<or> node_pk \<in> visiting then []
      else
        \<lparr>gen = g, path = p @ [node_pk]\<rparr>
          # (if g < max_depth then
               concat (map (\<lambda>parent. lineage by_pk max_depth parent (g + 1) (p @ [node_pk])
                                       (insert node_pk visiting))
                         (parent_links by_pk node_pk))
             else []))"
  by pat_completeness auto
termination
  by (relation "measure (\<lambda>(by_pk, max_depth, node_pk, g, p, visiting).
                  nat (max_depth + 1 - g))") auto

declare lineage.simps [simp del]

definition lineage_of_subject :: "string \<Rightarrow> store \<Rightarrow> int \<Rightarrow> occ list" where
  "lineage_of_subject pk by_pk max_depth =
     concat (map (\<lambda>parent. lineage by_pk max_depth parent 1 [] {}) (parent_links by_pk pk))"

text \<open>Recording one occurrence under the identifier its path ends in.\<close>

definition record_occurrence :: "'a occ_scheme occs \<Rightarrow> 'a occ_scheme \<Rightarrow> 'a occ_scheme occs" where
  "record_occurrence occurrences x = setdefault_append occurrences (last (path x)) x"

text \<open>
  A list of identifiers that follows parent links upwards from \<open>k\<close>: its first element
  is a parent of \<open>k\<close>, and each further element a parent of the one before.
\<close>

fun linked :: "store \<Rightarrow> string \<Rightarrow> string list \<Rightarrow> bool" where
  "linked by_pk k [] = True"
| "linked by_pk k (x # xs) = (x \<in> set (parent_links by_pk k) \<and> linked by_pk x xs)"

text \<open>
  In the path \<open>p\<close>, the identifier \<open>b\<close> stands at the position of \<open>a\<close> or before it.
\<close>

definition at_or_before :: "string list \<Rightarrow> string \<Rightarrow> string \<Rightarrow> bool" where
  "at_or_before p b a \<longleftrightarrow> (\<exists>i j. i \<le> j \<and> j < length p \<and> p ! i = b \<and> p ! j = a)"

text \<open>
  Every path stored under an ancestor holds that ancestor and no identifier twice: what
  the subsumption loops rely on when they call \<^verbatim>\<open>path.index(ancestor)\<close>.
\<close>

definition paths_ok :: "inbred \<Rightarrow> bool" where
  "paths_ok inbred \<longleftrightarrow>
     (\<forall>a e. map_of inbred a = Some e \<longrightarrow> (\<forall>p \<in> set (paths e). distinct p \<and> a \<in> set p))"

section \<open>The depth resolver: the memo\<close>

text \<open>
  Every depth in the memo is the depth of the recursion without memo, from an empty
  path.
\<close>

definition memo_ok :: "store \<Rightarrow> (string \<rightharpoonup> int) \<Rightarrow> bool" where
  "memo_ok by_pk memo \<longleftrightarrow> (\<forall>k d. memo k = Some d \<longrightarrow> d = depth_on_path by_pk {} k)"

section \<open>The occurrences with branch sides as a list of lineage paths\<close>

text \<open>A lineage path with the label of the top-level branch it was reached through.\<close>

definition with_side :: "string \<Rightarrow> occ \<Rightarrow> occ_side" where
  "with_side sd x = \<lparr>gen = gen x, path = path x, side = sd\<rparr>"

text \<open>
  The lineage paths of the subject through its sire, labelled \<^verbatim>\<open>Sire\<close>, followed by
  those through its dam, labelled \<^verbatim>\<open>Dam\<close>.
\<close>

definition lineage_sides_of_subject :: "string \<Rightarrow> store \<Rightarrow> int \<Rightarrow> occ_side list" where
  "lineage_sides_of_subject pk by_pk max_depth =
     (case map_of by_pk pk of
        None \<Rightarrow> []
      | Some data \<Rightarrow>
          (if field data ''Sire'' \<noteq> []
           then map (with_side ''Sire'') (lineage by_pk max_depth (field data ''Sire'') 1 [] {})
           else [])
          @ (if field data ''Dam'' \<noteq> []
             then map (with_side ''Dam'') (lineage by_pk max_depth (field data ''Dam'') 1 [] {})
             else []))"

section \<open>Chains of parent links\<close>

text \<open>
  The two parent links of a record and the columns that hold them.
\<close>

datatype link = SireLink | DamLink

definition link_column :: "link \<Rightarrow> string" where
  "link_column l = (case l of SireLink \<Rightarrow> ''Sire'' | DamLink \<Rightarrow> ''Dam'')"

text \<open>
  The identifier a link of \<open>k\<close> leads to: none when \<open>k\<close> has no record or the column
  is empty after stripping.
\<close>

definition link_target :: "store \<Rightarrow> string \<Rightarrow> link \<Rightarrow> string option" where
  "link_target by_pk k l =
     (case map_of by_pk k of
        None \<Rightarrow> None
      | Some data \<Rightarrow>
          if field data (link_column l) = [] then None
          else Some (field data (link_column l)))"

text \<open>
  The identifiers met when a chain of links is followed upwards from \<open>k\<close>, the nearest
  first; none when a link of the chain is absent.
\<close>

fun follow :: "store \<Rightarrow> string \<Rightarrow> link list \<Rightarrow> string list option" where
  "follow by_pk k [] = Some []"
| "follow by_pk k (l # ls) =
     (case link_target by_pk k l of
        None \<Rightarrow> None
      | Some x \<Rightarrow> map_option ((#) x) (follow by_pk x ls))"

text \<open>
  All chains of one to \<open>n\<close> links, a chain before its extensions and the sire's side
  before the dam's.
\<close>

fun all_chains :: "nat \<Rightarrow> link list list" where
  "all_chains 0 = []"
| "all_chains (Suc n) =
     concat (map (\<lambda>l. [l] # map ((#) l) (all_chains n)) [SireLink, DamLink])"

text \<open>
  The occurrence that a chain of links gives when it is followed from \<open>k\<close>, at
  generation \<open>g\<close> plus its length, after the identifiers \<open>pre\<close>: none when a link is
  absent or an identifier would be met twice.
\<close>

definition chain_from :: "store \<Rightarrow> string list \<Rightarrow> string \<Rightarrow> int \<Rightarrow> link list \<Rightarrow> occ option" where
  "chain_from by_pk pre k g ls =
     (case follow by_pk k ls of
        None \<Rightarrow> None
      | Some q \<Rightarrow>
          if distinct (pre @ q) then Some \<lparr>gen = g + int (length ls), path = pre @ q\<rparr>
          else None)"

text \<open>
  The occurrences of the ancestors of a subject within \<open>max_depth\<close> generations: one
  for each chain of at most \<open>max_depth\<close> sire or dam links from the subject that exists
  in the store and meets no identifier twice. Its generation is the length of the
  chain and its path the identifiers met. Two chains are two occurrences, also when
  they meet the same identifiers (a record that names one identifier as sire and as
  dam).
\<close>

definition chain_occurrences :: "string \<Rightarrow> store \<Rightarrow> int \<Rightarrow> occ list" where
  "chain_occurrences pk by_pk max_depth =
     List.map_filter (chain_from by_pk [] pk 0) (all_chains (nat max_depth))"

text \<open>
  The occurrences of one ancestor \<open>a\<close>: those of the chains that end in it.
\<close>

definition chains_to :: "string \<Rightarrow> store \<Rightarrow> int \<Rightarrow> string \<Rightarrow> occ list" where
  "chains_to pk by_pk max_depth a =
     filter (\<lambda>x. last (path x) = a) (chain_occurrences pk by_pk max_depth)"

text \<open>
  The distinct root-to-ancestor paths to \<open>a\<close>: the sequences of identifiers that the
  chains to \<open>a\<close> pass through, each sequence once.
\<close>

definition distinct_paths_to :: "string \<Rightarrow> store \<Rightarrow> int \<Rightarrow> string \<Rightarrow> string list list" where
  "distinct_paths_to pk by_pk max_depth a = remdups (map path (chains_to pk by_pk max_depth a))"

text \<open>
  The sum of \<open>(1/2) ^ (generation - g)\<close> over a list of occurrences: with \<open>g = 0\<close>, one
  hundredth of the percentage of an ancestor recorded with these occurrences.
\<close>

definition weight :: "int \<Rightarrow> 'a occ_scheme list \<Rightarrow> rat" where
  "weight g os = (\<Sum>x\<leftarrow>os. (1 / 2) powi (gen x - g))"

section \<open>The percentage as a float\<close>

text \<open>
  A rational number that is a binary64 float (of the normal or subnormal range): an
  integer of less than 53 bits times a power of two.
\<close>

definition binary64 :: "rat \<Rightarrow> bool" where
  "binary64 q \<longleftrightarrow>
     (\<exists>m e. q = of_int m * 2 powi e \<and> \<bar>m\<bar> < 2 ^ 53 \<and> - 1074 \<le> e \<and> e \<le> 971)"

text \<open>
  \<^verbatim>\<open>sum((0.5**g) for g in gens) * 100.0\<close> in float arithmetic: every operation returns
  the rounding \<open>fl\<close> of its exact result, and \<^verbatim>\<open>sum\<close> adds from the left, starting at 0.
  The rounding of Python's floats is not code of this repository: it is the parameter
  \<open>fl\<close>, of which the theorems assume only that it returns a binary64 number as it
  is.
\<close>

definition float_percentage :: "(rat \<Rightarrow> rat) \<Rightarrow> int list \<Rightarrow> rat" where
  "float_percentage fl gs =
     fl (foldl (\<lambda>acc g. fl (acc + fl ((1 / 2) powi g))) 0 gs * 100)"

section \<open>Example record stores\<close>

text \<open>
  The subject \<open>S\<close> has sire \<open>F\<close> and dam \<open>M\<close>; the sire of both \<open>F\<close> and \<open>M\<close> is \<open>G\<close>,
  which has a record with no parents.
\<close>

definition store_both_sides :: store where
  "store_both_sides =
     [(''S'', [(''Sire'', ''F''), (''Dam'', ''M'')]),
      (''F'', [(''Sire'', ''G''), (''Dam'', '''')]),
      (''M'', [(''Sire'', ''G''), (''Dam'', '''')]),
      (''G'', [(''Sire'', ''''), (''Dam'', '''')])]"

text \<open>
  The subject \<open>S\<close> has sire \<open>F\<close> and dam \<open>M\<close>; \<open>G\<close> is the sire of \<open>F\<close> (generation 2)
  and, through \<open>X\<close>, a grandparent of \<open>M\<close> (generation 3). Two of the links carry
  blanks, which \<^verbatim>\<open>strip()\<close> removes.
\<close>

definition store_two_three :: store where
  "store_two_three =
     [(''S'', [(''Sire'', ''F''), (''Dam'', ''M'')]),
      (''F'', [(''Sire'', ''G'')]),
      (''M'', [(''Sire'', ''X '')]),
      (''X'', [(''Dam'', '' G'')])]"

text \<open>
  A store with cyclic parentage: \<open>X\<close> is the sire of \<open>Y\<close> and \<open>Y\<close> the sire of \<open>X\<close>. The
  subject \<open>A\<close> has sire \<open>X\<close> and dam \<open>Y\<close>; the dam of \<open>X\<close> is \<open>L1\<close>, whose sire \<open>L2\<close> has
  no record.
\<close>

definition store_cyclic :: store where
  "store_cyclic =
     [(''A'', [(''Sire'', ''X''), (''Dam'', ''Y'')]),
      (''X'', [(''Sire'', ''Y''), (''Dam'', ''L1'')]),
      (''Y'', [(''Sire'', ''X'')]),
      (''L1'', [(''Sire'', ''L2'')])]"

text \<open>The identifier \<open>X\<close> lists itself as its own sire.\<close>

definition store_self_sire :: store where
  "store_self_sire = [(''X'', [(''Sire'', ''X''), (''Dam'', '''')])]"


text \<open>
  As \<open>store_both_sides\<close>, with a sire \<open>H\<close> of \<open>G\<close>: every path to \<open>H\<close> passes through
  \<open>G\<close>.
\<close>

definition store_subsumed :: store where
  "store_subsumed =
     [(''S'', [(''Sire'', ''F''), (''Dam'', ''M'')]),
      (''F'', [(''Sire'', ''G'')]),
      (''M'', [(''Sire'', ''G'')]),
      (''G'', [(''Sire'', ''H'')])]"

text \<open>
  A rank for \<open>store_two_three\<close> that decreases along every parent link: the store has
  no cyclic parentage.
\<close>

definition rank_two_three :: "string \<Rightarrow> nat" where
  "rank_two_three k =
     (if k = ''S'' then 3 else if k = ''F'' \<or> k = ''M'' then 2 else if k = ''X'' then 1 else 0)"

text \<open>
  The store \<open>store_cyclic\<close> with the sire and the dam of \<open>A\<close> exchanged: the same
  individuals and the same parent links, read in the other order.
\<close>

definition store_cyclic_swapped :: store where
  "store_cyclic_swapped =
     [(''A'', [(''Sire'', ''Y''), (''Dam'', ''X'')]),
      (''X'', [(''Sire'', ''Y''), (''Dam'', ''L1'')]),
      (''Y'', [(''Sire'', ''X'')]),
      (''L1'', [(''Sire'', ''L2'')])]"

text \<open>
  The subject \<open>S\<close> has sire \<open>F\<close> and dam \<open>M\<close>, each with two parents: \<open>G\<close> is the sire
  of both, the dams \<open>D1\<close> and \<open>D2\<close> differ.
\<close>

definition store_two_parents :: store where
  "store_two_parents =
     [(''S'', [(''Sire'', ''F''), (''Dam'', ''M'')]),
      (''F'', [(''Sire'', ''G''), (''Dam'', ''D1'')]),
      (''M'', [(''Sire'', ''G''), (''Dam'', ''D2'')]),
      (''G'', [(''Sire'', ''GS''), (''Dam'', ''GD'')])]"

text \<open>
  The subject \<open>S\<close> has sire \<open>F\<close> and no dam; the record of \<open>F\<close> names \<open>G\<close> both as its
  sire and as its dam.
\<close>

definition store_same_parent :: store where
  "store_same_parent =
     [(''S'', [(''Sire'', ''F''), (''Dam'', '''')]),
      (''F'', [(''Sire'', ''G''), (''Dam'', ''G'')])]"

section \<open>The tree builder: shape of the built tree\<close>

lemma depth_build_node [simp]: "depth (build_node horses G h d) = d"
  by (subst build_node.simps) (simp add: Let_def)

lemma horse_build_node [simp]: "horse (build_node horses G h d) = h"
  by (subst build_node.simps) (simp add: Let_def)

lemma build_node_inner:
  "d < G - 1 \<Longrightarrow> build_node horses G h d =
     PedigreeNode h
       (Some (build_node horses G (or_placeholder (lookup_parent horses (sire h))) (d + 1)))
       (Some (build_node horses G (or_placeholder (lookup_parent horses (dam h))) (d + 1)))
       0 0 d"
  by (subst build_node.simps) (simp add: Let_def)

lemma build_node_leaf:
  "\<not> d < G - 1 \<Longrightarrow> build_node horses G h d = PedigreeNode h None None 0 0 d"
  by (subst build_node.simps) simp

lemma build_node_nodes:
  "n \<in> set (collect_nodes (build_node horses G h d)) \<Longrightarrow>
     d \<le> depth n \<and> (d \<le> G - 1 \<longrightarrow> depth n \<le> G - 1) \<and> expanded horses G n"
proof (induction horses G h d arbitrary: n rule: build_node.induct)
  case (1 horses G h d)
  show ?case
  proof (cases "d < G - 1")
    case True
    let ?sh = "or_placeholder (lookup_parent horses (sire h))"
    let ?dh = "or_placeholder (lookup_parent horses (dam h))"
    from "1.prems" True
    consider "n = build_node horses G h d"
      | "n \<in> set (collect_nodes (build_node horses G ?sh (d + 1)))"
      | "n \<in> set (collect_nodes (build_node horses G ?dh (d + 1)))"
      by (auto simp: build_node_inner [of d G horses h])
    then show ?thesis
    proof cases
      case 1
      then show ?thesis using True
        by (simp add: expanded_def build_node_inner [of d G horses h])
    next
      case 2
      from "1.IH"(1) [OF True refl refl 2] True show ?thesis by auto
    next
      case 3
      from "1.IH"(2) [OF True refl refl 3] True show ?thesis by auto
    qed
  next
    case False
    with "1.prems" have "n = PedigreeNode h None None 0 0 d"
      by (simp add: build_node_leaf)
    with False show ?thesis by (simp add: expanded_def)
  qed
qed

lemma leaf_count_build_node:
  "leaf_count (build_node horses G h d) = 2 ^ nat (G - 1 - d)"
proof (induction horses G h d rule: build_node.induct)
  case (1 horses G h d)
  show ?case
  proof (cases "d < G - 1")
    case True
    have e: "nat (G - 1 - d) = Suc (nat (G - 1 - (d + 1)))" using True by simp
    show ?thesis
      using "1.IH"(1) [OF True refl refl] "1.IH"(2) [OF True refl refl] True
      by (simp add: build_node_inner [of d G horses h] e)
  next
    case False
    then show ?thesis by (simp add: build_node_leaf)
  qed
qed

text \<open>
  C8. For a generation count \<open>G \<ge> 1\<close> the subject is the root, at generation 0. A node
  has children exactly when its depth is below \<open>G - 1\<close>; no node is deeper than
  \<open>G - 1\<close>, and a node at depth \<open>G - 1\<close> has no children, whatever the record store
  holds for its parents.
\<close>

theorem build_tree_depth_bound:
  assumes "1 \<le> G"
  shows "depth (build_tree horses k G) = 0
    \<and> horse (build_tree horses k G) = (case horses k of None \<Rightarrow> UNKNOWN_HORSE | Some h \<Rightarrow> h)
    \<and> (\<forall>n \<in> set (collect_nodes (build_tree horses k G)).
          0 \<le> depth n \<and> depth n \<le> G - 1
          \<and> ((node_sire n \<noteq> None \<or> node_dam n \<noteq> None) \<longleftrightarrow> depth n < G - 1)
          \<and> (depth n = G - 1 \<longrightarrow> node_sire n = None \<and> node_dam n = None))"
proof -
  have "0 \<le> depth n \<and> depth n \<le> G - 1
          \<and> ((node_sire n \<noteq> None \<or> node_dam n \<noteq> None) \<longleftrightarrow> depth n < G - 1)
          \<and> (depth n = G - 1 \<longrightarrow> node_sire n = None \<and> node_dam n = None)"
    if "n \<in> set (collect_nodes (build_tree horses k G))" for n
    using build_node_nodes [OF that [unfolded build_tree_def]] assms
    by (auto simp: expanded_def split: if_splits)
  then show ?thesis by (simp add: build_tree_def)
qed

lemma example_tree_2:
  "build_tree example_horses ''S'' 2 =
     PedigreeNode (the (example_horses ''S''))
       (Some (PedigreeNode (the (example_horses ''F'')) None None 0 0 1))
       (Some (PedigreeNode placeholder_horse None None 0 0 1)) 0 0 0"
  by (simp add: build_tree_def build_node.simps example_horses_def lookup_parent_def
      or_placeholder_def)

theorem build_tree_depth_bound_witness:
  "(1::int) \<le> 2
   \<and> PedigreeNode (the (example_horses ''F'')) None None 0 0 1
        \<in> set (collect_nodes (build_tree example_horses ''S'' 2))
   \<and> sire (the (example_horses ''F'')) = Some ''G''
   \<and> example_horses ''G'' \<noteq> None
   \<and> depth (build_tree example_horses ''S'' 2) = 0
   \<and> depth (PedigreeNode (the (example_horses ''F'')) None None 0 0 1) = 2 - 1
   \<and> node_sire (PedigreeNode (the (example_horses ''F'')) None None 0 0 1) = None
   \<and> node_dam (PedigreeNode (the (example_horses ''F'')) None None 0 0 1) = None"
proof -
  let ?n = "PedigreeNode (the (example_horses ''F'')) None None 0 0 1"
  have g: "(1::int) \<le> 2" by simp
  have m: "?n \<in> set (collect_nodes (build_tree example_horses ''S'' 2))"
    by (simp add: example_tree_2)
  have d: "sire (the (example_horses ''F'')) = Some ''G'' \<and> example_horses ''G'' \<noteq> None"
    by (simp add: example_horses_def)
  have e: "depth ?n = 2 - 1" by simp
  from build_tree_depth_bound [OF g, of example_horses "''S''"] m e
  have "depth (build_tree example_horses ''S'' 2) = 0
    \<and> node_sire ?n = None \<and> node_dam ?n = None"
    by blast
  with g m d e show ?thesis by blast
qed

text \<open>
  C9. When the subject has no record, the root carries \<open>UNKNOWN_HORSE\<close>, which is not a
  placeholder and is labelled \<open>Unknown\<close>; with a generation count above 1 the root has
  two children at generation 1, both carrying the placeholder; with a count of at most
  1 the root stands alone.
\<close>

theorem build_tree_unknown_root:
  assumes "horses k = None"
  shows "horse (build_tree horses k G) = UNKNOWN_HORSE
    \<and> \<not> is_placeholder (horse (build_tree horses k G))
    \<and> horse_label (horse (build_tree horses k G)) = ''Unknown''
    \<and> depth (build_tree horses k G) = 0
    \<and> (1 < G \<longrightarrow>
         (\<exists>s d. node_sire (build_tree horses k G) = Some s
            \<and> node_dam (build_tree horses k G) = Some d
            \<and> horse s = placeholder_horse \<and> horse d = placeholder_horse
            \<and> is_placeholder (horse s) \<and> is_placeholder (horse d)
            \<and> depth s = 1 \<and> depth d = 1))
    \<and> (G \<le> 1 \<longrightarrow>
         node_sire (build_tree horses k G) = None \<and> node_dam (build_tree horses k G) = None)"
proof -
  have t: "build_tree horses k G = build_node horses G UNKNOWN_HORSE 0"
    using assms by (simp add: build_tree_def)
  have u: "\<not> is_placeholder UNKNOWN_HORSE" "horse_label UNKNOWN_HORSE = ''Unknown''"
    by (simp_all add: UNKNOWN_HORSE_def horse_label_def join_space_def)
  have p: "or_placeholder (lookup_parent horses (sire UNKNOWN_HORSE)) = placeholder_horse"
    "or_placeholder (lookup_parent horses (dam UNKNOWN_HORSE)) = placeholder_horse"
    by (simp_all add: UNKNOWN_HORSE_def lookup_parent_def or_placeholder_def)
  have q: "is_placeholder placeholder_horse" by (simp add: placeholder_horse_def)
  have big: "1 < G \<Longrightarrow> build_node horses G UNKNOWN_HORSE 0 =
       PedigreeNode UNKNOWN_HORSE
         (Some (build_node horses G placeholder_horse 1))
         (Some (build_node horses G placeholder_horse 1)) 0 0 0"
    using build_node_inner [of 0 G horses UNKNOWN_HORSE] p by simp
  have small: "G \<le> 1 \<Longrightarrow> build_node horses G UNKNOWN_HORSE 0 =
       PedigreeNode UNKNOWN_HORSE None None 0 0 0"
    using build_node_leaf [of 0 G horses UNKNOWN_HORSE] by simp
  show ?thesis
    unfolding t using u q big small by auto
qed

theorem build_tree_unknown_root_witness:
  "example_horses ''X'' = None \<and> (1::int) < 2
   \<and> build_tree example_horses ''X'' 2 =
       PedigreeNode UNKNOWN_HORSE
         (Some (PedigreeNode placeholder_horse None None 0 0 1))
         (Some (PedigreeNode placeholder_horse None None 0 0 1)) 0 0 0
   \<and> horse_label (horse (build_tree example_horses ''X'' 2)) = ''Unknown''
   \<and> build_tree example_horses ''X'' 1 = PedigreeNode UNKNOWN_HORSE None None 0 0 0"
proof -
  have h: "example_horses ''X'' = None" by (simp add: example_horses_def)
  have g: "(1::int) < 2" by simp
  have t2: "build_tree example_horses ''X'' 2 =
       PedigreeNode UNKNOWN_HORSE
         (Some (PedigreeNode placeholder_horse None None 0 0 1))
         (Some (PedigreeNode placeholder_horse None None 0 0 1)) 0 0 0"
    by (simp add: build_tree_def h build_node.simps lookup_parent_def or_placeholder_def
        UNKNOWN_HORSE_def)
  have t1: "build_tree example_horses ''X'' 1 = PedigreeNode UNKNOWN_HORSE None None 0 0 0"
    by (simp add: build_tree_def h build_node.simps)
  from build_tree_unknown_root [of example_horses "''X''" 2, OF h] h g t2 t1 show ?thesis by simp
qed

text \<open>
  C10. For \<open>G \<ge> 1\<close> the built tree is a perfect binary tree: a node above depth
  \<open>G - 1\<close> has both children, one generation further (placeholders under a
  placeholder), a node at depth \<open>G - 1\<close> has none, and the tree has \<open>2 ^ (G - 1)\<close>
  leaves.
\<close>

theorem build_tree_perfect:
  assumes "1 \<le> G"
  shows "(\<forall>n \<in> set (collect_nodes (build_tree horses k G)).
            (depth n < G - 1 \<longrightarrow>
               (\<exists>s d. node_sire n = Some s \<and> node_dam n = Some d
                  \<and> depth s = depth n + 1 \<and> depth d = depth n + 1
                  \<and> (horse n = placeholder_horse \<longrightarrow>
                       horse s = placeholder_horse \<and> horse d = placeholder_horse)))
          \<and> (depth n = G - 1 \<longrightarrow> node_sire n = None \<and> node_dam n = None)
          \<and> 0 \<le> depth n \<and> depth n \<le> G - 1)
    \<and> leaf_count (build_tree horses k G) = 2 ^ nat (G - 1)"
proof -
  have "(depth n < G - 1 \<longrightarrow>
               (\<exists>s d. node_sire n = Some s \<and> node_dam n = Some d
                  \<and> depth s = depth n + 1 \<and> depth d = depth n + 1
                  \<and> (horse n = placeholder_horse \<longrightarrow>
                       horse s = placeholder_horse \<and> horse d = placeholder_horse)))
          \<and> (depth n = G - 1 \<longrightarrow> node_sire n = None \<and> node_dam n = None)
          \<and> 0 \<le> depth n \<and> depth n \<le> G - 1"
    if "n \<in> set (collect_nodes (build_tree horses k G))" for n
    using build_node_nodes [OF that [unfolded build_tree_def]] assms
    by (auto simp: expanded_def lookup_parent_def or_placeholder_def placeholder_horse_def
        split: if_splits)
  then show ?thesis
    by (simp add: build_tree_def leaf_count_build_node)
qed

theorem build_tree_perfect_witness:
  "(1::int) \<le> 2
   \<and> build_tree example_horses ''S'' 2 =
       PedigreeNode (the (example_horses ''S''))
         (Some (PedigreeNode (the (example_horses ''F'')) None None 0 0 1))
         (Some (PedigreeNode placeholder_horse None None 0 0 1)) 0 0 0
   \<and> leaf_count (build_tree example_horses ''S'' 2) = 2 ^ nat (2 - 1)
   \<and> node_sire (PedigreeNode placeholder_horse None None 0 0 1) = None
   \<and> node_dam (PedigreeNode placeholder_horse None None 0 0 1) = None"
proof -
  let ?n = "PedigreeNode placeholder_horse None None 0 0 1"
  have g: "(1::int) \<le> 2" by simp
  have m: "?n \<in> set (collect_nodes (build_tree example_horses ''S'' 2))"
    by (simp add: example_tree_2)
  have e: "depth ?n = 2 - 1" by simp
  from build_tree_perfect [OF g, of example_horses "''S''"] m e
  have "leaf_count (build_tree example_horses ''S'' 2) = 2 ^ nat (2 - 1)
    \<and> node_sire ?n = None \<and> node_dam ?n = None"
    by blast
  with g example_tree_2 show ?thesis by blast
qed

section \<open>The layout assigner on built trees\<close>

lemma pow2_step_int:
  "d < G - 1 \<Longrightarrow> (2::int) ^ nat (G - 1 - d) = 2 ^ nat (G - 1 - (d + 1)) + 2 ^ nat (G - 1 - (d + 1))"
proof -
  assume "d < G - 1"
  then have "nat (G - 1 - d) = Suc (nat (G - 1 - (d + 1)))" by simp
  then show ?thesis by simp
qed

lemma pow2_step_nat:
  "d < G - 1 \<Longrightarrow> (2::nat) ^ nat (G - 1 - d) = 2 ^ nat (G - 1 - (d + 1)) + 2 ^ nat (G - 1 - (d + 1))"
proof -
  assume "d < G - 1"
  then have "nat (G - 1 - d) = Suc (nat (G - 1 - (d + 1)))" by simp
  then show ?thesis by simp
qed

lemma assign_rows_build_node:
  "\<exists>t'. assign_rows (build_node horses G h d) li G = Inr (t', li + 2 ^ nat (G - 1 - d))
      \<and> row_start t' = li \<and> row_end t' = li + 2 ^ nat (G - 1 - d) - 1
      \<and> leaf_count t' = 2 ^ nat (G - 1 - d)
      \<and> clear_rows t' = build_node horses G h d
      \<and> (\<forall>n \<in> set (collect_nodes t'). span_ok n)"
proof (induction horses G h d arbitrary: li rule: build_node.induct)
  case (1 horses G h d)
  show ?case
  proof (cases "d < G - 1")
    case True
    let ?sh = "or_placeholder (lookup_parent horses (sire h))"
    let ?dh = "or_placeholder (lookup_parent horses (dam h))"
    let ?w = "(2::int) ^ nat (G - 1 - (d + 1))"
    note e = pow2_step_int [OF True] and en = pow2_step_nat [OF True]
    from "1.IH"(1) [OF True refl refl, of li]
    obtain s' where s: "assign_rows (build_node horses G ?sh (d + 1)) li G = Inr (s', li + ?w)"
      and s1: "row_start s' = li" and s2: "row_end s' = li + ?w - 1"
      and s3: "leaf_count s' = 2 ^ nat (G - 1 - (d + 1))"
      and s5: "clear_rows s' = build_node horses G ?sh (d + 1)"
      and s4: "\<forall>n \<in> set (collect_nodes s'). span_ok n"
      by blast
    from "1.IH"(2) [OF True refl refl, of "li + ?w"]
    obtain d' where d: "assign_rows (build_node horses G ?dh (d + 1)) (li + ?w) G = Inr (d', li + ?w + ?w)"
      and d1: "row_start d' = li + ?w" and d2: "row_end d' = li + ?w + ?w - 1"
      and d3: "leaf_count d' = 2 ^ nat (G - 1 - (d + 1))"
      and d5: "clear_rows d' = build_node horses G ?dh (d + 1)"
      and d4: "\<forall>n \<in> set (collect_nodes d'). span_ok n"
      by blast
    let ?t = "PedigreeNode h (Some s') (Some d') (row_start s') (row_end d') d"
    have r: "assign_rows (build_node horses G h d) li G = Inr (?t, li + ?w + ?w)"
      using True s d by (simp add: build_node_inner [of d G horses h])
    have pos: "0 < ?w" by simp
    have root: "span_ok ?t"
      using s1 s2 s3 d1 d2 d3 pos by (simp add: span_ok_def)
    have all: "\<forall>n \<in> set (collect_nodes ?t). span_ok n"
      using root s4 d4 by auto
    have cl: "clear_rows ?t = build_node horses G h d"
      using s5 d5 by (simp add: build_node_inner [OF True, of horses h])
    show ?thesis
      using r s1 d2 s3 d3 e en all cl by auto
  next
    case False
    then show ?thesis
      by (simp add: build_node_leaf span_ok_def)
  qed
qed

text \<open>
  C1. For \<open>G \<ge> 1\<close>, \<^verbatim>\<open>assign_rows\<close> from leaf index 0 on the tree built for \<open>G\<close>
  generations returns (it does not raise) the same tree with spans written in, and the
  next leaf index \<open>2 ^ (G - 1)\<close>. The root spans the rows \<open>0 .. 2 ^ (G - 1) - 1\<close>,
  the full extent of the layout. For every node the span \<open>row_start .. row_end\<close> is
  a non-empty interval with as many rows as the subtree has leaves; a leaf has one
  row; an inner node has both children, its span starts where the sire's starts, the
  dam's span starts on the row after the sire's last, and its span ends where the dam's
  ends.
\<close>

theorem assign_rows_spans:
  assumes "1 \<le> G"
  shows "\<exists>t'. assign_rows (build_tree horses k G) 0 G = Inr (t', leaf_rows G)
      \<and> clear_rows t' = build_tree horses k G
      \<and> row_start t' = 0 \<and> row_end t' = leaf_rows G - 1
      \<and> (\<forall>n \<in> set (collect_nodes t').
            row_start n \<le> row_end n
          \<and> row_end n - row_start n + 1 = int (leaf_count n)
          \<and> (node_sire n = None \<and> node_dam n = None \<longrightarrow> row_end n = row_start n)
          \<and> (node_sire n = None \<longleftrightarrow> node_dam n = None)
          \<and> (\<forall>s dn. node_sire n = Some s \<and> node_dam n = Some dn \<longrightarrow>
                row_start n = row_start s \<and> row_start dn = row_end s + 1
                \<and> row_end n = row_end dn))"
proof -
  let ?h = "case horses k of None \<Rightarrow> UNKNOWN_HORSE | Some h \<Rightarrow> h"
  from assign_rows_build_node [of horses G ?h 0 0]
  obtain t' where "assign_rows (build_node horses G ?h 0) 0 G = Inr (t', 0 + 2 ^ nat (G - 1 - 0))"
    and "row_start t' = 0" and "row_end t' = 0 + 2 ^ nat (G - 1 - 0) - 1"
    and "clear_rows t' = build_node horses G ?h 0"
    and "\<forall>n \<in> set (collect_nodes t'). span_ok n"
    by blast
  then show ?thesis
    unfolding build_tree_def leaf_rows_def span_ok_def by (intro exI [of _ t']) simp
qed

lemma example_layout_2:
  "assign_rows (build_tree example_horses ''S'' 2) 0 2 =
     Inr (PedigreeNode (the (example_horses ''S''))
            (Some (PedigreeNode (the (example_horses ''F'')) None None 0 0 1))
            (Some (PedigreeNode placeholder_horse None None 1 1 1)) 0 1 0, 2)"
  by (simp add: example_tree_2)

theorem assign_rows_spans_witness:
  "(1::int) \<le> 2
   \<and> assign_rows (build_tree example_horses ''S'' 2) 0 2 =
       Inr (PedigreeNode (the (example_horses ''S''))
              (Some (PedigreeNode (the (example_horses ''F'')) None None 0 0 1))
              (Some (PedigreeNode placeholder_horse None None 1 1 1)) 0 1 0, leaf_rows 2)
   \<and> leaf_rows 2 = 2
   \<and> span_ok (PedigreeNode (the (example_horses ''S''))
              (Some (PedigreeNode (the (example_horses ''F'')) None None 0 0 1))
              (Some (PedigreeNode placeholder_horse None None 1 1 1)) 0 1 0)
   \<and> span_ok (PedigreeNode (the (example_horses ''F'')) None None 0 0 1)
   \<and> span_ok (PedigreeNode placeholder_horse None None 1 1 1)"
proof -
  let ?t = "PedigreeNode (the (example_horses ''S''))
              (Some (PedigreeNode (the (example_horses ''F'')) None None 0 0 1))
              (Some (PedigreeNode placeholder_horse None None 1 1 1)) 0 1 0"
  have g: "(1::int) \<le> 2" by simp
  have l: "leaf_rows 2 = 2" by (simp add: leaf_rows_def)
  from assign_rows_spans [OF g, of example_horses "''S''"]
  obtain t' where r: "assign_rows (build_tree example_horses ''S'' 2) 0 2 = Inr (t', leaf_rows 2)"
    and a: "\<forall>n \<in> set (collect_nodes t'). span_ok n"
    unfolding span_ok_def by blast
  from r have t: "t' = ?t" by (simp add: example_layout_2)
  from a have "span_ok ?t"
    and "span_ok (PedigreeNode (the (example_horses ''F'')) None None 0 0 1)"
    and "span_ok (PedigreeNode placeholder_horse None None 1 1 1)"
    unfolding t by simp_all
  with g l r t show ?thesis by blast
qed

section \<open>The inbreeding analyzer: dictionaries and the walk\<close>

lemma map_of_setdefault_append:
  "map_of (setdefault_append d k x) k' =
     (if k' = k then Some ((case map_of d k of None \<Rightarrow> [] | Some xs \<Rightarrow> xs) @ [x])
      else map_of d k')"
  by (induction d k x rule: setdefault_append.induct) auto

lemma keys_setdefault_append:
  "map fst (setdefault_append d k x) =
     (if k \<in> set (map fst d) then map fst d else map fst d @ [k])"
  by (induction d k x rule: setdefault_append.induct) auto

lemma distinct_setdefault_append:
  "distinct (map fst d) \<Longrightarrow> distinct (map fst (setdefault_append d k x))"
  by (simp add: keys_setdefault_append)

lemma map_of_dict_set: "map_of (dict_set d k v) = (map_of d)(k \<mapsto> v)"
  by (induction d k v rule: dict_set.induct) auto

lemma walk_skip: "g > M \<or> node \<in> v \<Longrightarrow> walk by_pk M node g p v occs = occs"
  by (subst walk.simps) auto

lemma walk_missing:
  "\<not> g > M \<Longrightarrow> node \<notin> v \<Longrightarrow> map_of by_pk node = None \<Longrightarrow>
     walk by_pk M node g p v occs = setdefault_append occs node \<lparr>gen = g, path = p @ [node]\<rparr>"
  by (subst walk.simps) (simp add: Let_def)

lemma walk_last:
  "\<not> g > M \<Longrightarrow> node \<notin> v \<Longrightarrow> \<not> g < M \<Longrightarrow>
     walk by_pk M node g p v occs = setdefault_append occs node \<lparr>gen = g, path = p @ [node]\<rparr>"
  by (subst walk.simps) (simp add: Let_def split: option.splits)

lemma walk_inner:
  "\<not> g > M \<Longrightarrow> node \<notin> v \<Longrightarrow> map_of by_pk node = Some data \<Longrightarrow> g < M \<Longrightarrow>
     walk by_pk M node g p v occs =
       (let o1 = setdefault_append occs node \<lparr>gen = g, path = p @ [node]\<rparr>;
            o2 = (if field data ''Sire'' \<noteq> []
                  then walk by_pk M (field data ''Sire'') (g + 1) (p @ [node]) (insert node v) o1
                  else o1)
        in if field data ''Dam'' \<noteq> []
           then walk by_pk M (field data ''Dam'') (g + 1) (p @ [node]) (insert node v) o2
           else o2)"
  by (subst walk.simps) (simp add: Let_def)

lemma lineage_skip: "g > M \<or> node \<in> v \<Longrightarrow> lineage by_pk M node g p v = []"
  by (subst lineage.simps) auto

lemma lineage_step:
  "\<not> g > M \<Longrightarrow> node \<notin> v \<Longrightarrow>
     lineage by_pk M node g p v =
       \<lparr>gen = g, path = p @ [node]\<rparr>
         # (if g < M then
              concat (map (\<lambda>parent. lineage by_pk M parent (g + 1) (p @ [node]) (insert node v))
                        (parent_links by_pk node))
            else [])"
  by (subst lineage.simps) auto

lemma walk_lineage:
  "walk by_pk M node g p v occs = foldl record_occurrence occs (lineage by_pk M node g p v)"
proof (induction by_pk M node g p v occs rule: walk.induct)
  case (1 by_pk M node g p v occs)
  let ?x = "\<lparr>gen = g, path = p @ [node]\<rparr>"
  let ?o1 = "setdefault_append occs node ?x"
  have r: "record_occurrence occs ?x = ?o1" by (simp add: record_occurrence_def)
  show ?case
  proof (cases "g > M \<or> node \<in> v")
    case True
    then show ?thesis by (simp add: walk_skip lineage_skip)
  next
    case False
    then have ng: "\<not> g > M" and nv: "node \<notin> v" by auto
    show ?thesis
    proof (cases "map_of by_pk node")
      case None
      then show ?thesis using ng nv r
        by (simp add: walk_missing lineage_step parent_links_def)
    next
      case (Some data)
      show ?thesis
      proof (cases "g < M")
        case False
        then show ?thesis using ng nv r by (simp add: walk_last lineage_step)
      next
        case True
        let ?o2 = "if field data ''Sire'' \<noteq> []
                   then walk by_pk M (field data ''Sire'') (g + 1) (p @ [node]) (insert node v) ?o1
                   else ?o1"
        note ih1 = "1.IH"(1) [OF ng nv refl refl Some True]
        note ih2 = "1.IH"(2) [OF ng nv refl refl Some True refl]
        show ?thesis using ih1 ih2 r True Some
          by (simp add: walk_inner [OF ng nv Some True] lineage_step [OF ng nv] Let_def
              parent_links_def)
      qed
    qed
  qed
qed

lemma collect_occurrences_lineage:
  "collect_occurrences pk by_pk M = foldl record_occurrence [] (lineage_of_subject pk by_pk M)"
proof -
  have e: "field [] c = []" for c by (simp add: field_def strip_def)
  show ?thesis
    by (auto simp: collect_occurrences_def lineage_of_subject_def parent_links_def Let_def
        walk_lineage e split: option.splits)
qed

lemma linked_append:
  "linked by_pk k (xs @ [y]) \<longleftrightarrow>
     linked by_pk k xs \<and> y \<in> set (parent_links by_pk (last (k # xs)))"
  by (induction xs arbitrary: k) auto

lemma lineage_elem:
  "x \<in> set (lineage by_pk M node g p v) \<Longrightarrow>
     g \<le> gen x \<and> gen x \<le> M
     \<and> (\<exists>q. path x = p @ node # q \<and> int (length q) = gen x - g \<and> linked by_pk node q)"
proof (induction by_pk M node g p v arbitrary: x rule: lineage.induct)
  case (1 by_pk M node g p v)
  show ?case
  proof (cases "g > M \<or> node \<in> v")
    case True
    with "1.prems" show ?thesis by (simp add: lineage_skip)
  next
    case False
    then have ng: "\<not> g > M" and nv: "node \<notin> v" by auto
    from "1.prems" consider "x = \<lparr>gen = g, path = p @ [node]\<rparr>"
      | parent where "g < M" "parent \<in> set (parent_links by_pk node)"
          "x \<in> set (lineage by_pk M parent (g + 1) (p @ [node]) (insert node v))"
      unfolding lineage_step [OF ng nv] by (auto split: if_splits)
    then show ?thesis
    proof cases
      case 1
      then show ?thesis using ng by simp
    next
      case 2
      from "1.IH" [OF False 2(1,2,3)]
      obtain q where "g + 1 \<le> gen x" "gen x \<le> M" "path x = (p @ [node]) @ parent # q"
        "int (length q) = gen x - (g + 1)" "linked by_pk parent q"
        by blast
      then show ?thesis using 2(2)
        by (intro conjI exI [of _ "parent # q"]) auto
    qed
  qed
qed

lemma lineage_distinct:
  "x \<in> set (lineage by_pk M node g p v) \<Longrightarrow> distinct p \<Longrightarrow> set p \<subseteq> v \<Longrightarrow>
     distinct (path x)"
proof (induction by_pk M node g p v arbitrary: x rule: lineage.induct)
  case (1 by_pk M node g p v)
  show ?case
  proof (cases "g > M \<or> node \<in> v")
    case True
    with "1.prems" show ?thesis by (simp add: lineage_skip)
  next
    case False
    then have ng: "\<not> g > M" and nv: "node \<notin> v" by auto
    have dp: "distinct (p @ [node])" "set (p @ [node]) \<subseteq> insert node v"
      using "1.prems"(2,3) nv by auto
    from "1.prems"(1) consider "x = \<lparr>gen = g, path = p @ [node]\<rparr>"
      | parent where "g < M" "parent \<in> set (parent_links by_pk node)"
          "x \<in> set (lineage by_pk M parent (g + 1) (p @ [node]) (insert node v))"
      unfolding lineage_step [OF ng nv] by (auto split: if_splits)
    then show ?thesis
    proof cases
      case 1
      then show ?thesis using dp by simp
    next
      case 2
      from "1.IH" [OF False 2(1,2,3) dp] show ?thesis .
    qed
  qed
qed

lemma length_parent_links: "length (parent_links by_pk k) \<le> 2"
  by (simp add: parent_links_def split: option.splits)



lemma map_of_foldl_record:
  "map_of (foldl record_occurrence d xs) k =
     (if filter (\<lambda>x. last (path x) = k) xs = [] then map_of d k
      else Some ((case map_of d k of None \<Rightarrow> [] | Some ys \<Rightarrow> ys)
                  @ filter (\<lambda>x. last (path x) = k) xs))"
  by (induction xs arbitrary: d)
    (auto simp: record_occurrence_def map_of_setdefault_append split: option.splits)

lemma distinct_foldl_record:
  "distinct (map fst d) \<Longrightarrow> distinct (map fst (foldl record_occurrence d xs))"
  by (induction xs arbitrary: d) (auto simp: record_occurrence_def distinct_setdefault_append)

lemma map_of_aggregate:
  "distinct (map fst occs) \<Longrightarrow>
     map_of (aggregate occs d) k =
       (case map_of occs k of
          None \<Rightarrow> map_of d k
        | Some os \<Rightarrow> if 2 \<le> length os then Some (make_entry os) else map_of d k)"
proof (induction occs d rule: aggregate.induct)
  case (1 inbred)
  then show ?case by simp
next
  case (2 ancestor os rest inbred)
  then have nk: "map_of rest ancestor = None"
    by (simp add: map_of_eq_None_iff)
  show ?case
  proof (cases "length os < 2")
    case True
    then show ?thesis using 2 nk by (auto split: option.splits)
  next
    case False
    then show ?thesis using 2 nk by (auto simp: map_of_dict_set split: option.splits)
  qed
qed

lemma keys_dict_set:
  "map fst (dict_set d k v) = (if k \<in> set (map fst d) then map fst d else map fst d @ [k])"
  by (induction d k v rule: dict_set.induct) auto

lemma distinct_aggregate:
  "distinct (map fst d) \<Longrightarrow> distinct (map fst (aggregate occs d))"
  by (induction occs d rule: aggregate.induct) (auto simp: keys_dict_set)

lemma py_index_Inr:
  "x \<in> set p \<Longrightarrow> \<exists>i. py_index p x = Inr i \<and> i < length p \<and> p ! i = x \<and> (\<forall>j<i. p ! j \<noteq> x)"
proof (induction p)
  case Nil
  then show ?case by simp
next
  case (Cons y ys)
  show ?case
  proof (cases "y = x")
    case True
    then show ?thesis by simp
  next
    case False
    with Cons obtain i where i: "py_index ys x = Inr i" "i < length ys" "ys ! i = x"
      "\<forall>j<i. ys ! j \<noteq> x" by auto
    have "\<forall>j<Suc i. (y # ys) ! j \<noteq> x"
      using False i(4) by (auto simp: nth_Cons split: nat.splits)
    then show ?thesis using False i by auto
  qed
qed

lemma py_index_distinct:
  "distinct p \<Longrightarrow> i < length p \<Longrightarrow> py_index p (p ! i) = Inr i"
proof (induction p arbitrary: i)
  case Nil
  then show ?case by simp
next
  case (Cons y ys)
  then show ?case by (cases i) auto
qed

lemma at_or_before_index:
  assumes "distinct p" "a \<in> set p"
  shows "at_or_before p b a \<longleftrightarrow>
    b \<in> set p \<and> (\<exists>i j. py_index p b = Inr i \<and> py_index p a = Inr j \<and> \<not> i > j)"
proof
  assume "at_or_before p b a"
  then obtain i j where ij: "i \<le> j" "j < length p" "p ! i = b" "p ! j = a"
    by (auto simp: at_or_before_def)
  then have "py_index p b = Inr i" "py_index p a = Inr j"
    using py_index_distinct [OF assms(1)] by auto
  with ij show "b \<in> set p \<and> (\<exists>i j. py_index p b = Inr i \<and> py_index p a = Inr j \<and> \<not> i > j)"
    by (auto intro: nth_mem)
next
  assume r: "b \<in> set p \<and> (\<exists>i j. py_index p b = Inr i \<and> py_index p a = Inr j \<and> \<not> i > j)"
  then obtain i j where ij: "py_index p b = Inr i" "py_index p a = Inr j" "i \<le> j" by auto
  from py_index_Inr [of b p] r ij(1) have "i < length p" "p ! i = b" by auto
  moreover from py_index_Inr [OF assms(2)] ij(2) have "j < length p" "p ! j = a" by auto
  ultimately show "at_or_before p b a" using ij(3) by (auto simp: at_or_before_def)
qed

lemma all_contained_eq:
  assumes "\<And>p. p \<in> set ps \<Longrightarrow> distinct p \<and> a \<in> set p"
  shows "all_contained a b ps = Inr (\<forall>p \<in> set ps. at_or_before p b a)"
  using assms
proof (induction ps)
  case Nil
  then show ?case by simp
next
  case (Cons p ps)
  then have dp: "distinct p" and ap: "a \<in> set p" by auto
  from py_index_Inr [OF ap] obtain j where j: "py_index p a = Inr j" by blast
  show ?case
  proof (cases "b \<in> set p")
    case False
    then show ?thesis using at_or_before_index [OF dp ap, of b] by simp
  next
    case True
    from py_index_Inr [OF True] obtain i where i: "py_index p b = Inr i" by blast
    have "at_or_before p b a \<longleftrightarrow> \<not> i > j"
      using at_or_before_index [OF dp ap, of b] True i j by simp
    then show ?thesis using True i j Cons by auto
  qed
qed

lemma subsumed_by_any_eq:
  assumes "paths_ok inbred" "map_of inbred a = Some e"
  shows "subsumed_by_any inbred a others =
    Inr (\<exists>b \<in> set others. b \<noteq> a \<and> (\<forall>p \<in> set (paths e). at_or_before p b a))"
proof (induction others)
  case Nil
  then show ?case by simp
next
  case (Cons b others)
  have pe: "distinct p \<and> a \<in> set p" if "p \<in> set (paths e)" for p
    using assms that unfolding paths_ok_def by blast
  have ac: "all_contained a b (paths e) = Inr (\<forall>p \<in> set (paths e). at_or_before p b a)"
    by (rule all_contained_eq) (rule pe)
  show ?case
  proof (cases "a = b")
    case True
    then have "subsumed_by_any inbred a (b # others) = subsumed_by_any inbred a others"
      by simp
    then show ?thesis using Cons True by auto
  next
    case False
    show ?thesis
    proof (cases "\<forall>p \<in> set (paths e). at_or_before p b a")
      case True
      with ac have "all_contained a b (paths e) = Inr True" by simp
      then have "subsumed_by_any inbred a (b # others) = Inr True"
        using False assms(2) by simp
      moreover have "\<exists>c \<in> set (b # others). c \<noteq> a \<and> (\<forall>p \<in> set (paths e). at_or_before p c a)"
        using True False by auto
      ultimately show ?thesis by simp
    next
      case nc: False
      with ac have "all_contained a b (paths e) = Inr False" by simp
      then have "subsumed_by_any inbred a (b # others) = subsumed_by_any inbred a others"
        using False assms(2) by simp
      moreover have "(\<exists>c \<in> set (b # others). c \<noteq> a \<and> (\<forall>p \<in> set (paths e). at_or_before p c a))
        \<longleftrightarrow> (\<exists>c \<in> set others. c \<noteq> a \<and> (\<forall>p \<in> set (paths e). at_or_before p c a))"
        using nc by auto
      ultimately show ?thesis using Cons by simp
    qed
  qed
qed

lemma subsume_loop_eq:
  assumes "paths_ok inbred" "set rest \<subseteq> fst ` set inbred"
  shows "\<exists>S. subsume_loop inbred cands rest S0 = Inr S \<and>
    S = S0 \<union> {a \<in> set rest. \<exists>e. map_of inbred a = Some e \<and>
          (\<exists>b \<in> set cands. b \<noteq> a \<and> (\<forall>p \<in> set (paths e). at_or_before p b a))}"
  using assms(2)
proof (induction rest arbitrary: S0)
  case Nil
  then show ?case by simp
next
  case (Cons a rest)
  then have "a \<in> fst ` set inbred" by simp
  then obtain e where e: "map_of inbred a = Some e"
    by (metis domD dom_map_of_conv_image_fst)
  note sb = subsumed_by_any_eq [OF assms(1) e, of cands]
  from Cons have r: "set rest \<subseteq> fst ` set inbred" by simp
  show ?case
  proof (cases "\<exists>b \<in> set cands. b \<noteq> a \<and> (\<forall>p \<in> set (paths e). at_or_before p b a)")
    case True
    then have sT: "subsumed_by_any inbred a cands = Inr True" using sb by simp
    from Cons.IH [OF r, of "insert a S0"]
    have "subsume_loop inbred cands rest (insert a S0) =
      Inr (insert a S0 \<union> {a \<in> set rest. \<exists>e. map_of inbred a = Some e \<and>
          (\<exists>b \<in> set cands. b \<noteq> a \<and> (\<forall>p \<in> set (paths e). at_or_before p b a))})"
      by simp
    moreover have "insert a S0 \<union> {a \<in> set rest. \<exists>e. map_of inbred a = Some e \<and>
          (\<exists>b \<in> set cands. b \<noteq> a \<and> (\<forall>p \<in> set (paths e). at_or_before p b a))}
      = S0 \<union> {x \<in> set (a # rest). \<exists>e. map_of inbred x = Some e \<and>
          (\<exists>b \<in> set cands. b \<noteq> x \<and> (\<forall>p \<in> set (paths e). at_or_before p b x))}"
      using True e by auto
    ultimately show ?thesis using sT by simp
  next
    case False
    then have sF: "subsumed_by_any inbred a cands = Inr False" using sb by simp
    from Cons.IH [OF r, of S0]
    have "subsume_loop inbred cands rest S0 =
      Inr (S0 \<union> {a \<in> set rest. \<exists>e. map_of inbred a = Some e \<and>
          (\<exists>b \<in> set cands. b \<noteq> a \<and> (\<forall>p \<in> set (paths e). at_or_before p b a))})"
      by simp
    moreover have "S0 \<union> {a \<in> set rest. \<exists>e. map_of inbred a = Some e \<and>
          (\<exists>b \<in> set cands. b \<noteq> a \<and> (\<forall>p \<in> set (paths e). at_or_before p b a))}
      = S0 \<union> {x \<in> set (a # rest). \<exists>e. map_of inbred x = Some e \<and>
          (\<exists>b \<in> set cands. b \<noteq> x \<and> (\<forall>p \<in> set (paths e). at_or_before p b x))}"
      using False e by auto
    ultimately show ?thesis using sF by simp
  qed
qed

lemma find_subsumed_eq:
  assumes "paths_ok inbred"
  shows "find_subsumed inbred =
    Inr {a. \<exists>e. map_of inbred a = Some e \<and>
          (\<exists>b \<in> fst ` set inbred. b \<noteq> a \<and> (\<forall>p \<in> set (paths e). at_or_before p b a))}"
proof -
  from subsume_loop_eq [OF assms, of "map fst inbred" "map fst inbred" "{}"]
  obtain S where S: "subsume_loop inbred (map fst inbred) (map fst inbred) {} = Inr S"
    "S = {} \<union> {a \<in> set (map fst inbred). \<exists>e. map_of inbred a = Some e \<and>
          (\<exists>b \<in> set (map fst inbred). b \<noteq> a \<and> (\<forall>p \<in> set (paths e). at_or_before p b a))}"
    by auto
  have "S = {a. \<exists>e. map_of inbred a = Some e \<and>
          (\<exists>b \<in> fst ` set inbred. b \<noteq> a \<and> (\<forall>p \<in> set (paths e). at_or_before p b a))}"
    unfolding S(2) by (auto dest: map_of_SomeD intro: rev_image_eqI)
  with S(1) show ?thesis by (simp add: find_subsumed_def)
qed

lemma lineage_of_subject_elem:
  assumes "x \<in> set (lineage_of_subject pk by_pk M)"
  shows "1 \<le> gen x \<and> gen x \<le> M \<and> path x \<noteq> [] \<and> int (length (path x)) = gen x
    \<and> distinct (path x) \<and> linked by_pk pk (path x)"
proof -
  from assms obtain parent where par: "parent \<in> set (parent_links by_pk pk)"
    and x: "x \<in> set (lineage by_pk M parent 1 [] {})"
    by (auto simp: lineage_of_subject_def)
  from lineage_elem [OF x] obtain q where q: "1 \<le> gen x" "gen x \<le> M"
    "path x = parent # q" "int (length q) = gen x - 1" "linked by_pk parent q"
    by auto
  from lineage_distinct [OF x] have "distinct (path x)" by simp
  with q par show ?thesis by simp
qed


lemma map_of_collect_occurrences:
  "map_of (collect_occurrences pk by_pk M) a =
     (if filter (\<lambda>x. last (path x) = a) (lineage_of_subject pk by_pk M) = [] then None
      else Some (filter (\<lambda>x. last (path x) = a) (lineage_of_subject pk by_pk M)))"
  by (simp add: collect_occurrences_lineage map_of_foldl_record)

lemma distinct_collect_occurrences: "distinct (map fst (collect_occurrences pk by_pk M))"
  by (simp add: collect_occurrences_lineage distinct_foldl_record)

lemma map_of_inbred:
  "map_of (aggregate (collect_occurrences pk by_pk M) []) a =
     (if 2 \<le> length (filter (\<lambda>x. last (path x) = a) (lineage_of_subject pk by_pk M))
      then Some (make_entry (filter (\<lambda>x. last (path x) = a) (lineage_of_subject pk by_pk M)))
      else None)"
  by (simp add: map_of_aggregate [OF distinct_collect_occurrences] map_of_collect_occurrences)

lemma paths_ok_inbred: "paths_ok (aggregate (collect_occurrences pk by_pk M) [])"
  unfolding paths_ok_def
proof (intro allI impI ballI)
  fix a e p
  assume e: "map_of (aggregate (collect_occurrences pk by_pk M) []) a = Some e"
    and p: "p \<in> set (paths e)"
  let ?os = "filter (\<lambda>x. last (path x) = a) (lineage_of_subject pk by_pk M)"
  from e have "e = make_entry ?os"
    by (simp add: map_of_inbred split: if_splits)
  with p obtain x where x: "x \<in> set ?os" "p = path x"
    by (auto simp: make_entry_def Let_def)
  then have xl: "x \<in> set (lineage_of_subject pk by_pk M)" and la: "last (path x) = a"
    by auto
  from lineage_of_subject_elem [OF xl] have "path x \<noteq> []" "distinct (path x)" by auto
  with la x(2) show "distinct p \<and> a \<in> set p"
    using last_in_set by blast
qed

lemma collect_inbreeding_eq:
  "collect_inbreeding pk by_pk M =
     Inr (aggregate (collect_occurrences pk by_pk M) [],
          {a. \<exists>e. map_of (aggregate (collect_occurrences pk by_pk M) []) a = Some e \<and>
            (\<exists>b \<in> fst ` set (aggregate (collect_occurrences pk by_pk M) []). b \<noteq> a
               \<and> (\<forall>p \<in> set (paths e). at_or_before p b a))})"
  by (simp add: collect_inbreeding_def Let_def find_subsumed_eq [OF paths_ok_inbred])

section \<open>The walk and the chains of parent links\<close>

text \<open>
  The occurrences that the walk records are those of the chains of sire and dam links
  from the subject: the lemmas below unfold the enumeration of the chains one link at
  a time and compare it with the calls of \<^verbatim>\<open>walk\<close>.
\<close>

lemma parent_links_targets:
  "parent_links by_pk k = List.map_filter (link_target by_pk k) [SireLink, DamLink]"
  by (simp add: parent_links_def link_target_def link_column_def List.map_filter_simps
      split: option.splits)

lemma map_filter_append:
  "List.map_filter f (xs @ ys) = List.map_filter f xs @ List.map_filter f ys"
  by (simp add: List.map_filter_def)

lemma map_filter_map: "List.map_filter f (map h xs) = List.map_filter (f \<circ> h) xs"
  by (induction xs) (simp_all add: List.map_filter_simps split: option.splits)

lemma map_filter_none: "(\<And>x. x \<in> set xs \<Longrightarrow> f x = None) \<Longrightarrow> List.map_filter f xs = []"
  by (induction xs) (simp_all add: List.map_filter_simps)

lemma map_filter_cong:
  "(\<And>x. x \<in> set xs \<Longrightarrow> f x = h x) \<Longrightarrow> List.map_filter f xs = List.map_filter h xs"
  by (induction xs) (auto simp: List.map_filter_simps split: option.splits)

lemma chain_from_single:
  "chain_from by_pk pre k g [l] =
     (case link_target by_pk k l of
        None \<Rightarrow> None
      | Some x \<Rightarrow> if distinct (pre @ [x]) then Some \<lparr>gen = g + 1, path = pre @ [x]\<rparr> else None)"
  by (simp add: chain_from_def split: option.splits)

lemma chain_from_cons:
  "chain_from by_pk pre k g (l # ls) =
     (case link_target by_pk k l of
        None \<Rightarrow> None
      | Some x \<Rightarrow> if x \<in> set pre then None else chain_from by_pk (pre @ [x]) x (g + 1) ls)"
  by (auto simp: chain_from_def split: option.splits)

lemma chains_of_link:
  assumes "distinct pre"
  shows "List.map_filter (chain_from by_pk pre k g) ([l] # map ((#) l) (all_chains n)) =
     (case link_target by_pk k l of
        None \<Rightarrow> []
      | Some x \<Rightarrow>
          if x \<in> set pre then []
          else \<lparr>gen = g + 1, path = pre @ [x]\<rparr>
                 # List.map_filter (chain_from by_pk (pre @ [x]) x (g + 1)) (all_chains n))"
proof -
  let ?F = "chain_from by_pk pre k g"
  have split: "List.map_filter ?F ([l] # map ((#) l) (all_chains n)) =
      (case ?F [l] of None \<Rightarrow> [] | Some y \<Rightarrow> [y])
      @ List.map_filter (?F \<circ> (#) l) (all_chains n)"
    by (simp add: List.map_filter_simps map_filter_map split: option.splits)
  show ?thesis
  proof (cases "link_target by_pk k l")
    case None
    then have "?F [l] = None" by (simp add: chain_from_single)
    moreover have "List.map_filter (?F \<circ> (#) l) (all_chains n) = []"
      by (rule map_filter_none) (simp add: chain_from_cons None)
    ultimately show ?thesis unfolding split using None by simp
  next
    case (Some x)
    show ?thesis
    proof (cases "x \<in> set pre")
      case True
      then have "?F [l] = None" using Some by (simp add: chain_from_single)
      moreover have "List.map_filter (?F \<circ> (#) l) (all_chains n) = []"
        by (rule map_filter_none) (simp add: chain_from_cons Some True)
      ultimately show ?thesis unfolding split using Some True by simp
    next
      case False
      have "?F [l] = Some \<lparr>gen = g + 1, path = pre @ [x]\<rparr>"
        using Some False assms by (simp add: chain_from_single)
      moreover have "List.map_filter (?F \<circ> (#) l) (all_chains n)
          = List.map_filter (chain_from by_pk (pre @ [x]) x (g + 1)) (all_chains n)"
        by (rule map_filter_cong) (simp add: chain_from_cons Some False)
      ultimately show ?thesis unfolding split using Some False by simp
    qed
  qed
qed

lemma chains_of_links:
  assumes "distinct pre"
  shows "List.map_filter (chain_from by_pk pre k g) (all_chains (Suc n)) =
     concat (map (\<lambda>x. if x \<in> set pre then []
                       else \<lparr>gen = g + 1, path = pre @ [x]\<rparr>
                              # List.map_filter (chain_from by_pk (pre @ [x]) x (g + 1))
                                  (all_chains n))
               (parent_links by_pk k))"
proof -
  have a: "all_chains (Suc n) =
      ([SireLink] # map ((#) SireLink) (all_chains n))
      @ ([DamLink] # map ((#) DamLink) (all_chains n))"
    by simp
  show ?thesis
    unfolding a map_filter_append chains_of_link [OF assms] parent_links_targets
    by (simp add: List.map_filter_simps split: option.splits)
qed

lemma lineage_chains:
  "v = set p \<Longrightarrow> distinct p \<Longrightarrow>
     lineage by_pk M node g p v =
       (if g > M \<or> node \<in> v then []
        else \<lparr>gen = g, path = p @ [node]\<rparr>
               # List.map_filter (chain_from by_pk (p @ [node]) node g) (all_chains (nat (M - g))))"
proof (induction by_pk M node g p v rule: lineage.induct)
  case (1 by_pk M node g p v)
  show ?case
  proof (cases "g > M \<or> node \<in> v")
    case True
    then show ?thesis by (simp add: lineage_skip)
  next
    case False
    then have ng: "\<not> g > M" and nv: "node \<notin> v" by auto
    have dp: "distinct (p @ [node])" and sp: "insert node v = set (p @ [node])"
      using "1.prems" nv by auto
    show ?thesis
    proof (cases "g < M")
      case gl: False
      with ng have "nat (M - g) = 0" by simp
      then show ?thesis unfolding lineage_step [OF ng nv] using gl False by simp
    next
      case True
      have n: "nat (M - g) = Suc (nat (M - (g + 1)))" using True by simp
      have ih: "lineage by_pk M x (g + 1) (p @ [node]) (insert node v) =
          (if x \<in> set (p @ [node]) then []
           else \<lparr>gen = g + 1, path = (p @ [node]) @ [x]\<rparr>
                  # List.map_filter (chain_from by_pk ((p @ [node]) @ [x]) x (g + 1))
                      (all_chains (nat (M - (g + 1)))))"
        if "x \<in> set (parent_links by_pk node)" for x
        using "1.IH" [OF False True that sp dp] True sp by simp
      have "concat (map (\<lambda>x. lineage by_pk M x (g + 1) (p @ [node]) (insert node v))
                      (parent_links by_pk node))
          = concat (map (\<lambda>x. if x \<in> set (p @ [node]) then []
                       else \<lparr>gen = g + 1, path = (p @ [node]) @ [x]\<rparr>
                              # List.map_filter (chain_from by_pk ((p @ [node]) @ [x]) x (g + 1))
                                  (all_chains (nat (M - (g + 1)))))
               (parent_links by_pk node))"
        using ih by (intro arg_cong [where f = concat] map_cong refl)
      then show ?thesis
        unfolding lineage_step [OF ng nv] n chains_of_links [OF dp] using True False by simp
    qed
  qed
qed

lemma lineage_of_subject_chains:
  "lineage_of_subject pk by_pk M = chain_occurrences pk by_pk M"
proof (cases "1 \<le> M")
  case False
  then have "nat M = 0" by simp
  moreover have "lineage by_pk M x 1 [] {} = []" for x
    using False by (simp add: lineage_skip)
  ultimately show ?thesis
    by (simp add: lineage_of_subject_def chain_occurrences_def List.map_filter_simps)
next
  case True
  then have n: "nat M = Suc (nat (M - 1))" by simp
  have l: "lineage by_pk M x 1 [] {} =
      \<lparr>gen = 0 + 1, path = [] @ [x]\<rparr>
        # List.map_filter (chain_from by_pk ([] @ [x]) x (0 + 1)) (all_chains (nat (M - 1)))" for x
    using lineage_chains [of "{}" "[]" by_pk M x 1] True by simp
  have d0: "distinct ([] :: string list)" by simp
  show ?thesis
    unfolding lineage_of_subject_def chain_occurrences_def n chains_of_links [OF d0] l
    by simp
qed

text \<open>
  The chains that end in one ancestor form a prefix-free family: a chain that has
  reached the ancestor cannot reach it again, because it would meet it twice. So the
  sum of \<open>(1/2) ^ generation\<close> over the occurrences of one ancestor is at most 1.
\<close>

lemma chain_from_gen_path:
  assumes "chain_from by_pk pre k g ls = Some x"
  shows "gen x = g + int (length ls)"
    and "\<exists>q. path x = pre @ q \<and> length q = length ls \<and> distinct (pre @ q)"
proof -
  from assms obtain q where q: "follow by_pk k ls = Some q" "distinct (pre @ q)"
    "x = \<lparr>gen = g + int (length ls), path = pre @ q\<rparr>"
    by (auto simp: chain_from_def split: option.splits if_splits)
  have "length q' = length ls" if "follow by_pk k ls = Some q'" for q' k
    using that by (induction ls arbitrary: k q') (auto split: option.splits)
  with q show "gen x = g + int (length ls)"
    and "\<exists>q. path x = pre @ q \<and> length q = length ls \<and> distinct (pre @ q)"
    by auto
qed

lemma all_chains_nonempty: "ls \<in> set (all_chains n) \<Longrightarrow> ls \<noteq> []"
  by (induction n arbitrary: ls) auto

lemma chains_avoid_pre:
  assumes "a \<in> set pre"
  shows "filter (\<lambda>x. last (path x) = a)
           (List.map_filter (chain_from by_pk pre k g) (all_chains n)) = []"
proof -
  have "last (path x) \<noteq> a"
    if "x \<in> set (List.map_filter (chain_from by_pk pre k g) (all_chains n))" for x
  proof -
    from that obtain ls where ls: "ls \<in> set (all_chains n)" "chain_from by_pk pre k g ls = Some x"
      by (auto simp: List.map_filter_def)
    from chain_from_gen_path(2) [OF ls(2)] obtain q where
      q: "path x = pre @ q" "length q = length ls" "distinct (pre @ q)" by blast
    from ls(1) q(2) have "q \<noteq> []" using all_chains_nonempty by fastforce
    then have "last (path x) \<in> set q" using q(1) by simp
    with q(3) assms show ?thesis by auto
  qed
  then show ?thesis by (simp add: filter_empty_conv)
qed

lemma weight_simps:
  "weight g [] = 0"
  "weight g (x # xs) = (1 / 2) powi (gen x - g) + weight g xs"
  "weight g (xs @ ys) = weight g xs + weight g ys"
  by (simp_all add: weight_def)

lemma weight_nonneg: "0 \<le> weight g os"
  unfolding weight_def by (rule sum_list_nonneg) auto

lemma weight_shift: "weight g os = (1 / 2) * weight (g + 1) os"
proof -
  have "(1 / 2 :: rat) powi (i - g) = (1 / 2) * (1 / 2) powi (i - (g + 1))" for i
  proof -
    have "(1 / 2 :: rat) powi (1 + (i - (g + 1))) = (1 / 2) powi 1 * (1 / 2) powi (i - (g + 1))"
      by (rule power_int_add) simp
    moreover have "1 + (i - (g + 1)) = i - g" by simp
    ultimately show ?thesis by simp
  qed
  note e = this
  show ?thesis
  proof (induction os)
    case Nil
    show ?case by (simp add: weight_simps)
  next
    case (Cons x xs)
    have "weight g (x # xs) = (1 / 2) * (1 / 2) powi (gen x - (g + 1)) + weight g xs"
      unfolding weight_simps e [of "gen x"] ..
    also have "\<dots> = (1 / 2) * (1 / 2) powi (gen x - (g + 1)) + (1 / 2) * weight (g + 1) xs"
      using Cons.IH by simp
    finally show ?case by (simp add: weight_simps algebra_simps)
  qed
qed

lemma kraft_step:
  assumes ih: "\<And>pre k g. distinct pre \<Longrightarrow>
      weight g (filter (\<lambda>x. last (path x) = a)
        (List.map_filter (chain_from by_pk pre k g) (all_chains n))) \<le> 1"
    and d: "distinct pre"
  shows "weight g (filter (\<lambda>x. last (path x) = a)
      (if x \<in> set pre then []
       else \<lparr>gen = g + 1, path = pre @ [x]\<rparr>
              # List.map_filter (chain_from by_pk (pre @ [x]) x (g + 1)) (all_chains n)))
    \<le> 1 / 2"
proof (cases "x \<in> set pre")
  case True
  then show ?thesis by (simp add: weight_simps)
next
  case False
  then have dx: "distinct (pre @ [x])" using d by simp
  show ?thesis
  proof (cases "x = a")
    case True
    have "filter (\<lambda>x. last (path x) = a)
           (List.map_filter (chain_from by_pk (pre @ [a]) a (g + 1)) (all_chains n)) = []"
      by (rule chains_avoid_pre) simp
    with True False show ?thesis by (simp add: weight_simps)
  next
    case xa: False
    let ?r = "filter (\<lambda>x. last (path x) = a)
        (List.map_filter (chain_from by_pk (pre @ [x]) x (g + 1)) (all_chains n))"
    have "weight g ?r = (1 / 2) * weight (g + 1) ?r" by (rule weight_shift)
    also have "\<dots> \<le> (1 / 2) * 1" using ih [OF dx] by (intro mult_left_mono) auto
    finally show ?thesis using False xa by (simp add: weight_simps)
  qed
qed

lemma weight_concat_le:
  assumes "\<And>x. x \<in> set xs \<Longrightarrow> weight g (filter P (f x)) \<le> c"
  shows "weight g (filter P (concat (map f xs))) \<le> of_nat (length xs) * c"
  using assms by (induction xs) (auto simp: weight_simps algebra_simps intro: add_mono)

lemma kraft:
  "distinct pre \<Longrightarrow>
     weight g (filter (\<lambda>x. last (path x) = a)
       (List.map_filter (chain_from by_pk pre k g) (all_chains n))) \<le> 1"
proof (induction n arbitrary: pre k g)
  case 0
  then show ?case by (simp add: weight_simps List.map_filter_simps)
next
  case (Suc n)
  let ?f = "\<lambda>x. if x \<in> set pre then []
       else \<lparr>gen = g + 1, path = pre @ [x]\<rparr>
              # List.map_filter (chain_from by_pk (pre @ [x]) x (g + 1)) (all_chains n)"
  have "weight g (filter (\<lambda>x. last (path x) = a) (concat (map ?f (parent_links by_pk k))))
      \<le> of_nat (length (parent_links by_pk k)) * (1 / 2)"
    by (rule weight_concat_le) (rule kraft_step [OF Suc.IH Suc.prems])
  also have "\<dots> \<le> 2 * (1 / 2)"
    using length_parent_links [of by_pk k] by (intro mult_right_mono) auto
  finally show ?case unfolding chains_of_links [OF Suc.prems] by simp
qed

lemma kraft_subject:
  "(\<Sum>x\<leftarrow>filter (\<lambda>x. last (path x) = a) (chain_occurrences pk by_pk M). (1 / 2) powi gen x) \<le> (1 :: rat)"
  using kraft [of "[]" 0 a by_pk pk "nat M"] by (simp add: weight_def chain_occurrences_def)

lemma chain_occurrences_gen:
  assumes "x \<in> set (chain_occurrences pk by_pk M)"
  shows "1 \<le> gen x \<and> gen x \<le> M"
proof -
  have "lineage_of_subject pk by_pk M = chain_occurrences pk by_pk M"
    by (rule lineage_of_subject_chains)
  with assms lineage_of_subject_elem [of x pk by_pk M] show ?thesis by simp
qed

section \<open>The percentage in float arithmetic\<close>

text \<open>
  With generations up to 46 and a sum of at most 1, every intermediate result of
  \<^verbatim>\<open>sum((0.5**g) for g in gens) * 100.0\<close> is an integer of at most 53 bits times
  \<open>2 ^ - 46\<close>, a binary64 number: no operation rounds, and the float is the exact
  rational.
\<close>

lemma binary64_dyadic:
  assumes "\<bar>k\<bar> < 2 ^ 53"
  shows "binary64 (of_int k / 2 ^ 46)"
proof -
  have "(2 :: rat) powi (- 46) = inverse (2 ^ 46)"
    by (simp only: power_int_minus power_int_numeral)
  then have "(of_int k / 2 ^ 46 :: rat) = of_int k * 2 powi (- 46)"
    by (simp only: divide_inverse)
  moreover have "- 1074 \<le> (- 46 :: int)" "(- 46 :: int) \<le> 971" by simp_all
  ultimately show ?thesis
    unfolding binary64_def using assms by (intro exI [of _ k] exI [of _ "- 46"] conjI)
qed

lemma half_power_dyadic:
  assumes "1 \<le> g" "g \<le> 46"
  shows "(1 / 2 :: rat) powi g = of_int (2 ^ nat (46 - g)) / 2 ^ 46"
proof -
  define A :: rat where "A = 2 ^ nat g"
  define B :: rat where "B = 2 ^ nat (46 - g)"
  have n: "nat g + nat (46 - g) = 46" using assms by simp
  have nz: "A \<noteq> 0" "B \<noteq> 0" by (simp_all add: A_def B_def)
  have c: "(2 :: rat) ^ 46 = A * B"
    unfolding A_def B_def power_add [symmetric] n ..
  have b: "(1 / 2 :: rat) powi g = 1 / A"
    using assms by (simp add: A_def power_int_def power_one_over)
  have d: "(of_int (2 ^ nat (46 - g)) :: rat) = B" by (simp add: B_def)
  show ?thesis unfolding b c d using nz by (simp add: field_simps)
qed

lemma sum_dyadic:
  assumes "\<forall>g \<in> set gs. 1 \<le> g \<and> g \<le> 46"
  shows "\<exists>k :: int. 0 \<le> k \<and> (\<Sum>g\<leftarrow>gs. (1 / 2 :: rat) powi g) = of_int k / 2 ^ 46"
  using assms
proof (induction gs)
  case Nil
  show ?case by (intro exI [of _ 0]) simp
next
  case (Cons g gs)
  then obtain k :: int where k: "0 \<le> k" "(\<Sum>g\<leftarrow>gs. (1 / 2 :: rat) powi g) = of_int k / 2 ^ 46"
    by auto
  from Cons.prems have g: "1 \<le> g" "g \<le> 46" by auto
  have "(\<Sum>g\<leftarrow>g # gs. (1 / 2 :: rat) powi g) = of_int (2 ^ nat (46 - g) + k) / 2 ^ 46"
    unfolding list.map sum_list.Cons half_power_dyadic [OF g] k(2)
    by (simp add: add_divide_distrib)
  moreover have "0 \<le> 2 ^ nat (46 - g) + k" using k(1) by simp
  ultimately show ?case by blast
qed

lemma sum_binary64:
  assumes "\<forall>g \<in> set gs. 1 \<le> g \<and> g \<le> 46"
    and "(\<Sum>g\<leftarrow>gs. (1 / 2 :: rat) powi g) \<le> 1"
  shows "binary64 (\<Sum>g\<leftarrow>gs. (1 / 2 :: rat) powi g)"
    and "binary64 ((\<Sum>g\<leftarrow>gs. (1 / 2 :: rat) powi g) * 100)"
proof -
  from sum_dyadic [OF assms(1)] obtain k :: int where
    k: "0 \<le> k" "(\<Sum>g\<leftarrow>gs. (1 / 2 :: rat) powi g) = of_int k / 2 ^ 46"
    by blast
  from assms(2) have "(of_int k :: rat) \<le> 2 ^ 46" unfolding k(2) by simp
  then have "(of_int k :: rat) \<le> of_int (2 ^ 46)" by simp
  then have le: "k \<le> 2 ^ 46" unfolding of_int_le_iff .
  with k(1) have "\<bar>k\<bar> < 2 ^ 53" by simp
  then show "binary64 (\<Sum>g\<leftarrow>gs. (1 / 2 :: rat) powi g)"
    unfolding k(2) by (rule binary64_dyadic)
  from le k(1) have "\<bar>k * 100\<bar> < 2 ^ 53" by simp
  then have "binary64 (of_int (k * 100) / 2 ^ 46)" by (rule binary64_dyadic)
  then show "binary64 ((\<Sum>g\<leftarrow>gs. (1 / 2 :: rat) powi g) * 100)"
    unfolding k(2) by simp
qed

lemma half_power_binary64:
  assumes "1 \<le> g" "g \<le> 46"
  shows "binary64 ((1 / 2) powi g)"
  using sum_binary64(1) [of "[g]"] assms
  by (simp add: power_int_def power_one_over power_le_one)

lemma float_sum_exact:
  assumes fl: "\<And>q. binary64 q \<Longrightarrow> fl q = q"
    and "\<forall>g \<in> set gs. 1 \<le> g \<and> g \<le> 46"
    and "(\<Sum>g\<leftarrow>gs. (1 / 2 :: rat) powi g) \<le> 1"
  shows "foldl (\<lambda>acc g. fl (acc + fl ((1 / 2) powi g))) 0 gs = (\<Sum>g\<leftarrow>gs. (1 / 2) powi g)"
  using assms(2,3)
proof (induction gs rule: rev_induct)
  case Nil
  show ?case by simp
next
  case (snoc g gs)
  have nn: "0 \<le> (1 / 2 :: rat) powi g" by simp
  from snoc.prems(2) have "(\<Sum>g\<leftarrow>gs. (1 / 2 :: rat) powi g) + (1 / 2) powi g \<le> 1" by simp
  with nn have le: "(\<Sum>g\<leftarrow>gs. (1 / 2 :: rat) powi g) \<le> 1" by linarith
  from snoc.prems have r: "\<forall>g \<in> set gs. 1 \<le> g \<and> g \<le> 46" and g: "1 \<le> g" "g \<le> 46"
    by auto
  from snoc.IH [OF r le]
  have ih: "foldl (\<lambda>acc g. fl (acc + fl ((1 / 2) powi g))) 0 gs = (\<Sum>g\<leftarrow>gs. (1 / 2) powi g)" .
  have a: "fl ((1 / 2) powi g) = (1 / 2) powi g"
    by (rule fl) (rule half_power_binary64 [OF g])
  have "binary64 (\<Sum>g\<leftarrow>gs @ [g]. (1 / 2 :: rat) powi g)"
    by (rule sum_binary64(1) [OF snoc.prems])
  then have b: "fl ((\<Sum>g\<leftarrow>gs. (1 / 2) powi g) + (1 / 2) powi g)
      = (\<Sum>g\<leftarrow>gs. (1 / 2) powi g) + (1 / 2) powi g"
    by (intro fl) simp
  show ?case by (simp add: ih a b)
qed

lemma float_percentage_exact:
  assumes fl: "\<And>q. binary64 q \<Longrightarrow> fl q = q"
    and "\<forall>g \<in> set gs. 1 \<le> g \<and> g \<le> 46"
    and "(\<Sum>g\<leftarrow>gs. (1 / 2 :: rat) powi g) \<le> 1"
  shows "float_percentage fl gs = 100 * (\<Sum>g\<leftarrow>gs. (1 / 2) powi g)"
proof -
  have "fl ((\<Sum>g\<leftarrow>gs. (1 / 2) powi g) * 100) = (\<Sum>g\<leftarrow>gs. (1 / 2) powi g) * 100"
    by (rule fl) (rule sum_binary64(2) [OF assms(2,3)])
  moreover have "foldl (\<lambda>acc g. fl (acc + fl ((1 / 2) powi g))) 0 gs = (\<Sum>g\<leftarrow>gs. (1 / 2) powi g)"
    by (rule float_sum_exact [OF assms])
  ultimately show ?thesis
    unfolding float_percentage_def by (simp add: mult.commute)
qed

section \<open>The inbreeding analyzer: subsumption\<close>

text \<open>
  C5. \<^verbatim>\<open>collect_inbreeding\<close> returns (its subsumption loops never raise), and an
  identifier \<open>a\<close> is in the subsumed set exactly when it is a repeated ancestor (a key
  of the full map) and some other repeated ancestor \<open>b\<close> stands, in every recorded path
  of \<open>a\<close>, at the position of \<open>a\<close> or before it. Every subsumed identifier is a key of
  the full map and is missing from \<^verbatim>\<open>inbred_pks\<close>, the final report. Each recorded path
  of \<open>a\<close> ends in \<open>a\<close> and holds no identifier twice, so the positions are well
  defined.
\<close>

theorem subsumed_iff:
  "\<exists>inbred subsumed.
     collect_inbreeding pk by_pk M = Inr (inbred, subsumed)
   \<and> (\<forall>a. a \<in> subsumed \<longleftrightarrow>
         (\<exists>ea. map_of inbred a = Some ea
            \<and> (\<exists>b eb. b \<noteq> a \<and> map_of inbred b = Some eb
                  \<and> (\<forall>p \<in> set (paths ea). at_or_before p b a))))
   \<and> (\<forall>a \<in> subsumed. a \<in> fst ` set inbred \<and> a \<notin> inbred_pks inbred subsumed)
   \<and> (\<forall>a e. map_of inbred a = Some e \<longrightarrow> (\<forall>p \<in> set (paths e). distinct p \<and> last p = a))"
proof -
  let ?inbred = "aggregate (collect_occurrences pk by_pk M) []"
  let ?S = "{a. \<exists>e. map_of ?inbred a = Some e \<and>
            (\<exists>b \<in> fst ` set ?inbred. b \<noteq> a \<and> (\<forall>p \<in> set (paths e). at_or_before p b a))}"
  have keys: "b \<in> fst ` set ?inbred \<longleftrightarrow> (\<exists>eb. map_of ?inbred b = Some eb)" for b
    by (metis domD domI dom_map_of_conv_image_fst)
  have 1: "a \<in> ?S \<longleftrightarrow>
         (\<exists>ea. map_of ?inbred a = Some ea
            \<and> (\<exists>b eb. b \<noteq> a \<and> map_of ?inbred b = Some eb
                  \<and> (\<forall>p \<in> set (paths ea). at_or_before p b a)))" for a
    using keys by blast
  have 2: "a \<in> fst ` set ?inbred \<and> a \<notin> inbred_pks ?inbred ?S" if "a \<in> ?S" for a
    using that keys [of a] by (auto simp: inbred_pks_def)
  have 3: "distinct p \<and> last p = a"
    if e: "map_of ?inbred a = Some e" and p: "p \<in> set (paths e)" for a e p
  proof -
    let ?os = "filter (\<lambda>x. last (path x) = a) (lineage_of_subject pk by_pk M)"
    from e have "e = make_entry ?os" by (simp add: map_of_inbred split: if_splits)
    with p obtain x where x: "x \<in> set ?os" "p = path x"
      by (auto simp: make_entry_def Let_def)
    then have "x \<in> set (lineage_of_subject pk by_pk M)" "last (path x) = a" by auto
    with lineage_of_subject_elem [of x pk by_pk M] x(2) show ?thesis by simp
  qed
  show ?thesis
    unfolding collect_inbreeding_eq
    by (intro exI [of _ ?inbred] exI [of _ ?S] conjI refl allI ballI impI 1 2 3)
qed

lemma subsumed_example:
  "collect_inbreeding ''S'' store_subsumed 3 =
     Inr ([(''G'', \<lparr>gens = [2, 2], percentage = 50,
                   paths = [[''F'', ''G''], [''M'', ''G'']]\<rparr>),
           (''H'', \<lparr>gens = [3, 3], percentage = 25,
                   paths = [[''F'', ''G'', ''H''], [''M'', ''G'', ''H'']]\<rparr>)],
          {''H''})"
  by code_simp

theorem subsumed_iff_witness:
  "collect_inbreeding ''S'' store_subsumed 3 =
     Inr ([(''G'', \<lparr>gens = [2, 2], percentage = 50,
                   paths = [[''F'', ''G''], [''M'', ''G'']]\<rparr>),
           (''H'', \<lparr>gens = [3, 3], percentage = 25,
                   paths = [[''F'', ''G'', ''H''], [''M'', ''G'', ''H'']]\<rparr>)],
          {''H''})
   \<and> ''H'' \<in> fst ` set [(''G'', \<lparr>gens = [2, 2], percentage = 50,
                   paths = [[''F'', ''G''], [''M'', ''G'']]\<rparr>),
           (''H'', \<lparr>gens = [3, 3], percentage = 25,
                   paths = [[''F'', ''G'', ''H''], [''M'', ''G'', ''H'']]\<rparr>)]
   \<and> ''H'' \<notin> inbred_pks [(''G'', \<lparr>gens = [2, 2], percentage = 50,
                   paths = [[''F'', ''G''], [''M'', ''G'']]\<rparr>),
           (''H'', \<lparr>gens = [3, 3], percentage = 25,
                   paths = [[''F'', ''G'', ''H''], [''M'', ''G'', ''H'']]\<rparr>)] {''H''}
   \<and> ''G'' \<in> inbred_pks [(''G'', \<lparr>gens = [2, 2], percentage = 50,
                   paths = [[''F'', ''G''], [''M'', ''G'']]\<rparr>),
           (''H'', \<lparr>gens = [3, 3], percentage = 25,
                   paths = [[''F'', ''G'', ''H''], [''M'', ''G'', ''H'']]\<rparr>)] {''H''}"
proof -
  let ?inb = "[(''G'', \<lparr>gens = [2, 2], percentage = 50,
                   paths = [[''F'', ''G''], [''M'', ''G'']]\<rparr>),
           (''H'', \<lparr>gens = [3, 3], percentage = 25,
                   paths = [[''F'', ''G'', ''H''], [''M'', ''G'', ''H'']]\<rparr>)]"
  from subsumed_iff [of "''S''" store_subsumed 3]
  obtain inbred subsumed where r: "collect_inbreeding ''S'' store_subsumed 3 = Inr (inbred, subsumed)"
    and s: "\<forall>a \<in> subsumed. a \<in> fst ` set inbred \<and> a \<notin> inbred_pks inbred subsumed"
    by blast
  from r have e: "inbred = ?inb" "subsumed = {''H''}"
    by (simp_all add: subsumed_example)
  from s have "''H'' \<in> fst ` set ?inb \<and> ''H'' \<notin> inbred_pks ?inb {''H''}"
    unfolding e by simp
  moreover have "''G'' \<in> inbred_pks ?inb {''H''}"
    by (simp add: inbred_pks_def)
  ultimately show ?thesis using subsumed_example by simp
qed

section \<open>The inbreeding analyzer: the full map\<close>

lemma map_of_occurrences_chains:
  "map_of (collect_occurrences pk by_pk M) a =
     (if chains_to pk by_pk M a = [] then None else Some (chains_to pk by_pk M a))"
  unfolding chains_to_def lineage_of_subject_chains [symmetric]
  by (rule map_of_collect_occurrences)

lemma map_of_inbred_chains:
  "map_of (aggregate (collect_occurrences pk by_pk M) []) a =
     (if 2 \<le> length (chains_to pk by_pk M a) then Some (make_entry (chains_to pk by_pk M a))
      else None)"
  by (simp add: map_of_aggregate [OF distinct_collect_occurrences] map_of_occurrences_chains)

lemma chains_to_percentage:
  assumes "M \<le> 46" and fl: "\<And>q. binary64 q \<Longrightarrow> fl q = q"
  shows "float_percentage fl (map gen (chains_to pk by_pk M a))
    = 100 * (\<Sum>x\<leftarrow>chains_to pk by_pk M a. (1 / 2) powi gen x)"
proof -
  have g: "\<forall>g \<in> set (map gen (chains_to pk by_pk M a)). 1 \<le> g \<and> g \<le> 46"
    using chain_occurrences_gen [of _ pk by_pk M] assms(1) by (fastforce simp: chains_to_def)
  have s: "(\<Sum>g\<leftarrow>map gen (chains_to pk by_pk M a). (1 / 2 :: rat) powi g) \<le> 1"
    using kraft_subject [of a pk by_pk M] by (simp add: chains_to_def comp_def)
  from float_percentage_exact [of fl, OF fl g s] show ?thesis by (simp add: comp_def)
qed

lemma map_of_inbred_occs:
  "map_of (aggregate (collect_occurrences pk by_pk M) []) a =
     (case map_of (collect_occurrences pk by_pk M) a of
        None \<Rightarrow> None
      | Some os \<Rightarrow> if 2 \<le> length os then Some (make_entry os) else None)"
  by (simp add: map_of_aggregate [OF distinct_collect_occurrences] split: option.splits)

lemma two_three_occurrences:
  "map_of (collect_occurrences ''S'' store_two_three 3) ''G'' =
     Some [\<lparr>gen = 2, path = [''F'', ''G'']\<rparr>, \<lparr>gen = 3, path = [''M'', ''X'', ''G'']\<rparr>]"
  by code_simp

lemma two_three_example:
  "collect_inbreeding ''S'' store_two_three 3 =
     Inr ([(''G'', \<lparr>gens = [3, 2], percentage = 75 / 2,
                   paths = [[''F'', ''G''], [''M'', ''X'', ''G'']]\<rparr>)], {})"
  by code_simp

lemma two_three_chains:
  "chains_to ''S'' store_two_three 3 ''G'' =
     [\<lparr>gen = 2, path = [''F'', ''G'']\<rparr>, \<lparr>gen = 3, path = [''M'', ''X'', ''G'']\<rparr>]"
  by code_simp

lemma same_parent_example:
  "collect_inbreeding ''S'' store_same_parent 2 =
     Inr ([(''G'', \<lparr>gens = [2, 2], percentage = 50,
                   paths = [[''F'', ''G''], [''F'', ''G'']]\<rparr>)], {})"
  by code_simp

lemma same_parent_chains:
  "chains_to ''S'' store_same_parent 2 ''G'' =
     [\<lparr>gen = 2, path = [''F'', ''G'']\<rparr>, \<lparr>gen = 2, path = [''F'', ''G'']\<rparr>]"
  by code_simp

lemma same_parent_paths:
  "distinct_paths_to ''S'' store_same_parent 2 ''G'' = [[''F'', ''G'']]"
  by code_simp

text \<open>
  C2, as the code has it. \<^verbatim>\<open>collect_inbreeding\<close> returns, and its full map holds
  exactly the identifiers with at least two recorded occurrences, each once. The
  occurrences recorded under an identifier \<open>a\<close> are those of the chains of at most \<open>M\<close>
  sire or dam links from the subject that end in \<open>a\<close> and meet no identifier twice, one
  occurrence for each chain, in the order sire before dam and a chain before its
  extensions. Two chains through the same identifiers are two occurrences: a record
  that names one identifier as sire and as dam gives one path twice, so the
  occurrences are not one for each distinct path. The entry of \<open>a\<close> holds the
  generations of these occurrences sorted downwards and their paths. For \<open>M \<le> 46\<close> no
  float operation of \<^verbatim>\<open>sum((0.5**g) for g in gens) * 100.0\<close> rounds, whatever the
  rounding \<open>fl\<close> of inexact results is, and the percentage is
  \<open>100 * \<Sum> (1/2) ^ generation\<close> over the occurrences.
\<close>

theorem full_inbreeding_map:
  "\<exists>inbred subsumed.
     collect_inbreeding pk by_pk M = Inr (inbred, subsumed)
   \<and> distinct (map fst inbred)
   \<and> (\<forall>a. map_of (collect_occurrences pk by_pk M) a =
          (if chains_to pk by_pk M a = [] then None else Some (chains_to pk by_pk M a)))
   \<and> (\<forall>a. a \<in> fst ` set inbred \<longleftrightarrow> 2 \<le> length (chains_to pk by_pk M a))
   \<and> (\<forall>a e. map_of inbred a = Some e \<longrightarrow>
          gens e = rev (sort (map gen (chains_to pk by_pk M a)))
        \<and> paths e = map path (chains_to pk by_pk M a)
        \<and> (M \<le> 46 \<and> (\<forall>q. binary64 q \<longrightarrow> fl q = q) \<longrightarrow>
             percentage e = float_percentage fl (map gen (chains_to pk by_pk M a))
           \<and> percentage e = 100 * (\<Sum>x\<leftarrow>chains_to pk by_pk M a. (1 / 2) powi gen x)))"
proof -
  let ?inbred = "aggregate (collect_occurrences pk by_pk M) []"
  have 1: "distinct (map fst ?inbred)" by (simp add: distinct_aggregate)
  have 2: "a \<in> fst ` set ?inbred \<longleftrightarrow> 2 \<le> length (chains_to pk by_pk M a)" for a
  proof -
    have "a \<in> fst ` set ?inbred \<longleftrightarrow> map_of ?inbred a \<noteq> None"
      by (metis domIff dom_map_of_conv_image_fst)
    then show ?thesis by (simp add: map_of_inbred_chains)
  qed
  have 3: "map_of ?inbred a = Some e \<longrightarrow>
          gens e = rev (sort (map gen (chains_to pk by_pk M a)))
        \<and> paths e = map path (chains_to pk by_pk M a)
        \<and> (M \<le> 46 \<and> (\<forall>q. binary64 q \<longrightarrow> fl q = q) \<longrightarrow>
             percentage e = float_percentage fl (map gen (chains_to pk by_pk M a))
           \<and> percentage e = 100 * (\<Sum>x\<leftarrow>chains_to pk by_pk M a. (1 / 2) powi gen x))"
    for a e
  proof
    assume "map_of ?inbred a = Some e"
    then have e: "e = make_entry (chains_to pk by_pk M a)"
      by (simp add: map_of_inbred_chains split: if_splits)
    have p: "percentage e = 100 * (\<Sum>x\<leftarrow>chains_to pk by_pk M a. (1 / 2) powi gen x)"
      unfolding e by (simp add: make_entry_def Let_def comp_def)
    have g: "gens e = rev (sort (map gen (chains_to pk by_pk M a)))"
      "paths e = map path (chains_to pk by_pk M a)"
      unfolding e by (simp_all add: make_entry_def Let_def)
    have f: "M \<le> 46 \<and> (\<forall>q. binary64 q \<longrightarrow> fl q = q) \<longrightarrow>
             percentage e = float_percentage fl (map gen (chains_to pk by_pk M a))
           \<and> percentage e = 100 * (\<Sum>x\<leftarrow>chains_to pk by_pk M a. (1 / 2) powi gen x)"
    proof (intro impI, elim conjE)
      assume m: "M \<le> 46" and q: "\<forall>q. binary64 q \<longrightarrow> fl q = q"
      from q have "fl q = q" if "binary64 q" for q using that by simp
      from chains_to_percentage [OF m this]
      have "float_percentage fl (map gen (chains_to pk by_pk M a))
          = 100 * (\<Sum>x\<leftarrow>chains_to pk by_pk M a. (1 / 2) powi gen x)" .
      with p show "percentage e = float_percentage fl (map gen (chains_to pk by_pk M a))
           \<and> percentage e = 100 * (\<Sum>x\<leftarrow>chains_to pk by_pk M a. (1 / 2) powi gen x)"
        by simp
    qed
    from g f show "gens e = rev (sort (map gen (chains_to pk by_pk M a)))
        \<and> paths e = map path (chains_to pk by_pk M a)
        \<and> (M \<le> 46 \<and> (\<forall>q. binary64 q \<longrightarrow> fl q = q) \<longrightarrow>
             percentage e = float_percentage fl (map gen (chains_to pk by_pk M a))
           \<and> percentage e = 100 * (\<Sum>x\<leftarrow>chains_to pk by_pk M a. (1 / 2) powi gen x))"
      by (intro conjI)
  qed
  have "distinct (map fst ?inbred)
   \<and> (\<forall>a. map_of (collect_occurrences pk by_pk M) a =
          (if chains_to pk by_pk M a = [] then None else Some (chains_to pk by_pk M a)))
   \<and> (\<forall>a. a \<in> fst ` set ?inbred \<longleftrightarrow> 2 \<le> length (chains_to pk by_pk M a))
   \<and> (\<forall>a e. map_of ?inbred a = Some e \<longrightarrow>
          gens e = rev (sort (map gen (chains_to pk by_pk M a)))
        \<and> paths e = map path (chains_to pk by_pk M a)
        \<and> (M \<le> 46 \<and> (\<forall>q. binary64 q \<longrightarrow> fl q = q) \<longrightarrow>
             percentage e = float_percentage fl (map gen (chains_to pk by_pk M a))
           \<and> percentage e = 100 * (\<Sum>x\<leftarrow>chains_to pk by_pk M a. (1 / 2) powi gen x)))"
    by (intro conjI allI 1 2 3 map_of_occurrences_chains)
  then show ?thesis
    unfolding collect_inbreeding_eq
    by (intro exI [of _ ?inbred] exI [of _ "{a. \<exists>e. map_of ?inbred a = Some e \<and>
            (\<exists>b \<in> fst ` set ?inbred. b \<noteq> a \<and> (\<forall>p \<in> set (paths e). at_or_before p b a))}"])
      (rule conjI [OF refl])
qed

theorem full_inbreeding_map_witness:
  "chains_to ''S'' store_two_three 3 ''G'' =
     [\<lparr>gen = 2, path = [''F'', ''G'']\<rparr>, \<lparr>gen = 3, path = [''M'', ''X'', ''G'']\<rparr>]
   \<and> collect_inbreeding ''S'' store_two_three 3 =
     Inr ([(''G'', \<lparr>gens = [3, 2], percentage = 75 / 2,
                   paths = [[''F'', ''G''], [''M'', ''X'', ''G'']]\<rparr>)], {})
   \<and> (3 :: int) \<le> 46
   \<and> float_percentage (\<lambda>q. q) [2, 3] = 75 / 2
   \<and> (75 / 2 :: rat) = 100 * (\<Sum>x\<leftarrow>[\<lparr>gen = 2, path = [''F'', ''G'']\<rparr>,
                                     \<lparr>gen = 3, path = [''M'', ''X'', ''G'']\<rparr>]. (1 / 2) powi gen x)"
proof -
  let ?os = "[\<lparr>gen = 2, path = [''F'', ''G'']\<rparr>, \<lparr>gen = 3, path = [''M'', ''X'', ''G'']\<rparr>]"
  let ?e = "\<lparr>gens = [3, 2], percentage = 75 / 2,
                   paths = [[''F'', ''G''], [''M'', ''X'', ''G'']]\<rparr>"
  obtain inbred subsumed where r: "collect_inbreeding ''S'' store_two_three 3 = Inr (inbred, subsumed)"
    and p: "\<forall>a e. map_of inbred a = Some e \<longrightarrow>
          gens e = rev (sort (map gen (chains_to ''S'' store_two_three 3 a)))
        \<and> paths e = map path (chains_to ''S'' store_two_three 3 a)
        \<and> ((3 :: int) \<le> 46 \<and> (\<forall>q :: rat. binary64 q \<longrightarrow> q = q) \<longrightarrow>
             percentage e = float_percentage (\<lambda>q. q) (map gen (chains_to ''S'' store_two_three 3 a))
           \<and> percentage e = 100 * (\<Sum>x\<leftarrow>chains_to ''S'' store_two_three 3 a. (1 / 2) powi gen x))"
    using full_inbreeding_map [of "''S''" store_two_three 3 "\<lambda>q. q"]
    by (elim exE conjE) (rule that)
  from r have i: "inbred = [(''G'', ?e)]" unfolding two_three_example by simp
  have m: "map_of inbred ''G'' = Some ?e" unfolding i by simp
  have h: "(3 :: int) \<le> 46 \<and> (\<forall>q :: rat. binary64 q \<longrightarrow> q = q)" by simp
  from p [THEN spec, THEN spec, THEN mp, OF m, THEN conjunct2, THEN conjunct2, THEN mp, OF h]
  have "percentage ?e = float_percentage (\<lambda>q. q) (map gen ?os)
      \<and> percentage ?e = 100 * (\<Sum>x\<leftarrow>?os. (1 / 2) powi gen x)"
    unfolding two_three_chains .
  then have "float_percentage (\<lambda>q. q) [2, 3] = 75 / 2"
    and "(75 / 2 :: rat) = 100 * (\<Sum>x\<leftarrow>?os. (1 / 2) powi gen x)"
    by simp_all
  with two_three_chains two_three_example h show ?thesis by (intro conjI) simp_all
qed

theorem full_inbreeding_map_counterexample:
  "collect_inbreeding ''S'' store_same_parent 2 =
     Inr ([(''G'', \<lparr>gens = [2, 2], percentage = 50,
                   paths = [[''F'', ''G''], [''F'', ''G'']]\<rparr>)], {})
   \<and> distinct_paths_to ''S'' store_same_parent 2 ''G'' = [[''F'', ''G'']]
   \<and> length (distinct_paths_to ''S'' store_same_parent 2 ''G'') < 2
   \<and> 100 * (\<Sum>p\<leftarrow>distinct_paths_to ''S'' store_same_parent 2 ''G''. (1 / 2) ^ length p)
       \<noteq> (50 :: rat)"
proof -
  have "length (distinct_paths_to ''S'' store_same_parent 2 ''G'') < 2"
    and "100 * (\<Sum>p\<leftarrow>distinct_paths_to ''S'' store_same_parent 2 ''G''. (1 / 2) ^ length p)
       \<noteq> (50 :: rat)"
    unfolding same_parent_paths by (simp_all add: power2_eq_square)
  with same_parent_example same_parent_paths show ?thesis by (intro conjI)
qed

section \<open>The inbreeding analyzer: the percentage of one ancestor\<close>

text \<open>
  C3, as the code has it. For an ancestor recorded exactly twice, once at generation 2
  and once at generation 3, the percentage is \<open>100 * ((1/2)^2 + (1/2)^3)\<close>, that is
  37.5 (not 18.75).
\<close>

theorem percentage_two_three:
  assumes "map_of (collect_occurrences pk by_pk M) a = Some [x, y]"
    and "(gen x = 2 \<and> gen y = 3) \<or> (gen x = 3 \<and> gen y = 2)"
  shows "\<exists>inbred subsumed e.
     collect_inbreeding pk by_pk M = Inr (inbred, subsumed)
   \<and> map_of inbred a = Some e
   \<and> percentage e = 100 * ((1 / 2) ^ 2 + (1 / 2) ^ 3)
   \<and> percentage e = 75 / 2"
proof -
  let ?inbred = "aggregate (collect_occurrences pk by_pk M) []"
  have m: "map_of ?inbred a = Some (make_entry [x, y])"
    using assms(1) by (simp add: map_of_inbred_occs)
  have "percentage (make_entry [x, y]) = (1 / 2) powi gen x * 100 + (1 / 2) powi gen y * 100"
    by (simp add: make_entry_def algebra_simps)
  with assms(2) have p: "percentage (make_entry [x, y]) = 100 * ((1 / 2) ^ 2 + (1 / 2) ^ 3)"
    by (auto simp: power2_eq_square power3_eq_cube)
  have v: "(100::rat) * ((1 / 2) ^ 2 + (1 / 2) ^ 3) = 75 / 2"
    by (simp add: power2_eq_square power3_eq_cube)
  have "collect_inbreeding pk by_pk M = Inr (?inbred, snd (projr (collect_inbreeding pk by_pk M)))"
    by (simp add: collect_inbreeding_eq)
  with m p v show ?thesis by metis
qed

theorem percentage_two_three_witness:
  "map_of (collect_occurrences ''S'' store_two_three 3) ''G'' =
     Some [\<lparr>gen = 2, path = [''F'', ''G'']\<rparr>, \<lparr>gen = 3, path = [''M'', ''X'', ''G'']\<rparr>]
   \<and> gen \<lparr>gen = 2, path = [''F'', ''G'']\<rparr> = 2
   \<and> gen \<lparr>gen = 3, path = [''M'', ''X'', ''G'']\<rparr> = 3
   \<and> map_option percentage
         (map_of (fst (projr (collect_inbreeding ''S'' store_two_three 3))) ''G'')
       = Some (75 / 2)"
proof -
  let ?x = "\<lparr>gen = 2, path = [''F'', ''G'']\<rparr>"
  let ?y = "\<lparr>gen = 3, path = [''M'', ''X'', ''G'']\<rparr>"
  have g: "(gen ?x = 2 \<and> gen ?y = 3) \<or> (gen ?x = 3 \<and> gen ?y = 2)" by simp
  from percentage_two_three [OF two_three_occurrences g]
  obtain inbred subsumed e where r: "collect_inbreeding ''S'' store_two_three 3 = Inr (inbred, subsumed)"
    and e: "map_of inbred ''G'' = Some e" "percentage e = 75 / 2"
    by blast
  have "map_option percentage
         (map_of (fst (projr (collect_inbreeding ''S'' store_two_three 3))) ''G'') = Some (75 / 2)"
    unfolding r using e by simp
  with two_three_occurrences show ?thesis by simp
qed

theorem percentage_two_three_counterexample:
  "map_of (collect_occurrences ''S'' store_two_three 3) ''G'' =
     Some [\<lparr>gen = 2, path = [''F'', ''G'']\<rparr>, \<lparr>gen = 3, path = [''M'', ''X'', ''G'']\<rparr>]
   \<and> collect_inbreeding ''S'' store_two_three 3 =
     Inr ([(''G'', \<lparr>gens = [3, 2], percentage = 75 / 2,
                   paths = [[''F'', ''G''], [''M'', ''X'', ''G'']]\<rparr>)], {})
   \<and> (75 / 2 :: rat) \<noteq> 18.75"
proof -
  have "(75 / 2 :: rat) \<noteq> 18.75" by simp
  with two_three_occurrences two_three_example show ?thesis by (intro conjI)
qed

section \<open>Cyclic record stores\<close>








lemma cyclic_occurrences:
  "collect_occurrences ''A'' store_cyclic 3 =
     [(''X'', [\<lparr>gen = 1, path = [''X'']\<rparr>, \<lparr>gen = 2, path = [''Y'', ''X'']\<rparr>]),
      (''Y'', [\<lparr>gen = 2, path = [''X'', ''Y'']\<rparr>, \<lparr>gen = 1, path = [''Y'']\<rparr>]),
      (''L1'', [\<lparr>gen = 2, path = [''X'', ''L1'']\<rparr>, \<lparr>gen = 3, path = [''Y'', ''X'', ''L1'']\<rparr>]),
      (''L2'', [\<lparr>gen = 3, path = [''X'', ''L1'', ''L2'']\<rparr>])]"
  by code_simp



section \<open>The depth resolver\<close>

lemma depth_for_memo: "memo k = Some d \<Longrightarrow> depth_for by_pk v memo k = (d, memo)"
  by (subst depth_for.simps) simp

lemma depth_for_visiting:
  "memo k = None \<Longrightarrow> k \<in> v \<Longrightarrow> depth_for by_pk v memo k = (0, memo)"
  by (subst depth_for.simps) simp

lemma depth_for_missing:
  "memo k = None \<Longrightarrow> k \<notin> v \<Longrightarrow> map_of by_pk k = None \<Longrightarrow>
     depth_for by_pk v memo k = (0, memo(k \<mapsto> 0))"
  by (subst depth_for.simps) simp

lemma depth_for_found:
  "memo k = None \<Longrightarrow> k \<notin> v \<Longrightarrow> map_of by_pk k = Some data \<Longrightarrow>
     depth_for by_pk v memo k =
       (case (if field data ''Sire'' \<noteq> []
              then (case depth_for by_pk (insert k v) memo (field data ''Sire'') of
                      (d, memo1) \<Rightarrow> ([0, 1 + d], memo1))
              else ([0], memo)) of
          (depths1, memo1) \<Rightarrow>
            (case (if field data ''Dam'' \<noteq> []
                   then (case depth_for by_pk (insert k v) memo1 (field data ''Dam'') of
                           (d, memo2) \<Rightarrow> (depths1 @ [1 + d], memo2))
                   else (depths1, memo1)) of
               (depths2, memo2) \<Rightarrow>
                 (let max_depth = fold max (tl depths2) (hd depths2)
                  in (max_depth, memo2(k \<mapsto> max_depth)))))"
  by (subst depth_for.simps) simp

lemma depth_on_path_visiting: "k \<in> v \<Longrightarrow> depth_on_path by_pk v k = 0"
  by (subst depth_on_path.simps) simp

lemma depth_on_path_missing: "map_of by_pk k = None \<Longrightarrow> depth_on_path by_pk v k = 0"
  by (subst depth_on_path.simps) simp

lemma depth_on_path_found:
  "k \<notin> v \<Longrightarrow> map_of by_pk k = Some data \<Longrightarrow>
     depth_on_path by_pk v k =
       max 0
         (max (if field data ''Sire'' \<noteq> []
               then 1 + depth_on_path by_pk (insert k v) (field data ''Sire'') else 0)
              (if field data ''Dam'' \<noteq> []
               then 1 + depth_on_path by_pk (insert k v) (field data ''Dam'') else 0))"
  by (subst depth_on_path.simps) simp

lemma parent_links_found:
  "map_of by_pk k = Some data \<Longrightarrow>
     (field data ''Sire'' \<noteq> [] \<longrightarrow> field data ''Sire'' \<in> set (parent_links by_pk k))
     \<and> (field data ''Dam'' \<noteq> [] \<longrightarrow> field data ''Dam'' \<in> set (parent_links by_pk k))"
  by (simp add: parent_links_def)

lemma depth_on_path_acyclic:
  fixes rank :: "string \<Rightarrow> nat"
  assumes rk: "\<And>k x. x \<in> set (parent_links by_pk k) \<Longrightarrow> rank x < rank k"
  shows "(\<forall>u \<in> v. rank k < rank u) \<Longrightarrow> depth_on_path by_pk v k = depth_on_path by_pk {} k"
proof (induction "rank k" arbitrary: k v rule: less_induct)
  case less
  have kv: "k \<notin> v" using less.prems by auto
  show ?case
  proof (cases "map_of by_pk k")
    case None
    then show ?thesis by (simp add: depth_on_path_missing)
  next
    case (Some data)
    have step: "depth_on_path by_pk (insert k w) x = depth_on_path by_pk {} x"
      if "x \<in> set (parent_links by_pk k)" "\<forall>u \<in> w. rank k < rank u" for x w
    proof -
      have "rank x < rank k" using rk that(1) .
      moreover have "\<forall>u \<in> insert k w. rank x < rank u"
        using \<open>rank x < rank k\<close> that(2) by auto
      ultimately show ?thesis using less.hyps by blast
    qed
    note pl = parent_links_found [OF Some]
    have "depth_on_path by_pk v k =
       max 0
         (max (if field data ''Sire'' \<noteq> []
               then 1 + depth_on_path by_pk {} (field data ''Sire'') else 0)
              (if field data ''Dam'' \<noteq> []
               then 1 + depth_on_path by_pk {} (field data ''Dam'') else 0))"
      unfolding depth_on_path_found [OF kv Some] using pl step [of _ v] less.prems by simp
    moreover have "depth_on_path by_pk {} k =
       max 0
         (max (if field data ''Sire'' \<noteq> []
               then 1 + depth_on_path by_pk {} (field data ''Sire'') else 0)
              (if field data ''Dam'' \<noteq> []
               then 1 + depth_on_path by_pk {} (field data ''Dam'') else 0))"
      unfolding depth_on_path_found [of k "{}", OF _ Some, simplified]
      using pl step [of _ "{}"] by simp
    ultimately show ?thesis by simp
  qed
qed

lemma memo_ok_upd:
  "memo_ok by_pk memo \<Longrightarrow> d = depth_on_path by_pk {} k \<Longrightarrow> memo_ok by_pk (memo(k \<mapsto> d))"
  by (simp add: memo_ok_def)

lemma depth_for_acyclic:
  fixes rank :: "string \<Rightarrow> nat"
  assumes rk: "\<And>k x. x \<in> set (parent_links by_pk k) \<Longrightarrow> rank x < rank k"
  shows "memo_ok by_pk memo \<Longrightarrow> (\<forall>u \<in> v. rank k < rank u) \<Longrightarrow>
    \<exists>memo'. depth_for by_pk v memo k = (depth_on_path by_pk {} k, memo') \<and> memo_ok by_pk memo'"
proof (induction "rank k" arbitrary: k v memo rule: less_induct)
  case less
  have kv: "k \<notin> v" using less.prems(2) by auto
  let ?D = "depth_on_path by_pk {}"
  show ?case
  proof (cases "memo k")
    case (Some d)
    with less.prems(1) have "d = ?D k" by (simp add: memo_ok_def)
    then show ?thesis using Some less.prems(1) by (simp add: depth_for_memo)
  next
    case None
    show ?thesis
    proof (cases "map_of by_pk k")
      case nr: None
      have "memo_ok by_pk (memo(k \<mapsto> 0))"
        using less.prems(1) by (intro memo_ok_upd) (simp_all add: depth_on_path_missing [of by_pk k, OF nr])
      then show ?thesis
        by (simp add: depth_for_missing [of memo k v by_pk, OF None kv nr] depth_on_path_missing [of by_pk k, OF nr])
    next
      case (Some data)
      note pl = parent_links_found [OF Some]
      let ?s = "field data ''Sire''" and ?d = "field data ''Dam''"
      have call: "\<exists>m'. depth_for by_pk (insert k v) m x = (?D x, m') \<and> memo_ok by_pk m'"
        if "x \<in> set (parent_links by_pk k)" "memo_ok by_pk m" for x m
      proof -
        have "rank x < rank k" using rk that(1) .
        moreover have "\<forall>u \<in> insert k v. rank x < rank u"
          using \<open>rank x < rank k\<close> less.prems(2) by auto
        ultimately show ?thesis using less.hyps that(2) by blast
      qed
      have Dk: "?D k = max 0 (max (if ?s \<noteq> [] then 1 + ?D ?s else 0)
                                 (if ?d \<noteq> [] then 1 + ?D ?d else 0))"
      proof -
        have "depth_on_path by_pk {k} x = ?D x" if "x \<in> set (parent_links by_pk k)" for x
          using depth_on_path_acyclic [of by_pk rank "{k}" x] rk that by auto
        then show ?thesis
          unfolding depth_on_path_found [of k "{}", OF _ Some, simplified] using pl by simp
      qed
      obtain depths1 memo1 where s1:
        "(if ?s \<noteq> []
          then (case depth_for by_pk (insert k v) memo ?s of (d, memo1) \<Rightarrow> ([0, 1 + d], memo1))
          else ([0], memo)) = (depths1, memo1)"
        and d1: "depths1 = (if ?s \<noteq> [] then [0, 1 + ?D ?s] else [0])"
        and m1: "memo_ok by_pk memo1"
      proof (cases "?s \<noteq> []")
        case True
        with pl call [OF _ less.prems(1)] obtain m' where
          "depth_for by_pk (insert k v) memo ?s = (?D ?s, m')" "memo_ok by_pk m'" by blast
        then show ?thesis using True that by simp
      next
        case False
        then show ?thesis using that less.prems(1) by simp
      qed
      obtain depths2 memo2 where s2:
        "(if ?d \<noteq> []
          then (case depth_for by_pk (insert k v) memo1 ?d of (d, memo2) \<Rightarrow> (depths1 @ [1 + d], memo2))
          else (depths1, memo1)) = (depths2, memo2)"
        and d2: "depths2 = depths1 @ (if ?d \<noteq> [] then [1 + ?D ?d] else [])"
        and m2: "memo_ok by_pk memo2"
      proof (cases "?d \<noteq> []")
        case True
        with pl call [OF _ m1] obtain m' where
          "depth_for by_pk (insert k v) memo1 ?d = (?D ?d, m')" "memo_ok by_pk m'" by blast
        then show ?thesis using True that by simp
      next
        case False
        then show ?thesis using that m1 by simp
      qed
      have mx: "fold max (tl depths2) (hd depths2) = ?D k"
        unfolding d2 d1 Dk by (simp add: max_def)
      have r: "depth_for by_pk v memo k = (?D k, memo2(k \<mapsto> ?D k))"
        unfolding depth_for_found [of memo k v by_pk data, OF None kv Some] s1 using s2 mx by (simp add: Let_def)
      moreover have "memo_ok by_pk (memo2(k \<mapsto> ?D k))"
        using m2 by (intro memo_ok_upd) simp_all
      ultimately show ?thesis by blast
    qed
  qed
qed

text \<open>
  On a record store with no cyclic parentage (one that admits a rank decreasing along
  every parent link) the memo changes nothing: the depth resolver returns the value of
  the recursion \<open>depth_on_path\<close>. On every record store an identifier with no record
  has depth 0, and so has a record whose sire and dam are both absent.
\<close>

lemma depth_for_transparent:
  fixes rank :: "string \<Rightarrow> nat"
  shows "((\<forall>k x. x \<in> set (parent_links by_pk k) \<longrightarrow> rank x < rank k) \<longrightarrow>
            compute_max_depth pk by_pk = depth_on_path by_pk {} pk)
    \<and> (map_of by_pk pk = None \<longrightarrow> compute_max_depth pk by_pk = 0)
    \<and> (\<forall>data. map_of by_pk pk = Some data \<and> field data ''Sire'' = [] \<and> field data ''Dam'' = []
          \<longrightarrow> compute_max_depth pk by_pk = 0)"
proof (intro conjI impI allI)
  assume "\<forall>k x. x \<in> set (parent_links by_pk k) \<longrightarrow> rank x < rank k"
  then have rk: "\<And>k x. x \<in> set (parent_links by_pk k) \<Longrightarrow> rank x < rank k" by blast
  have "memo_ok by_pk Map.empty" by (simp add: memo_ok_def)
  from depth_for_acyclic [of by_pk rank Map.empty "{}" pk, OF rk this]
  obtain memo' where "depth_for by_pk {} Map.empty pk = (depth_on_path by_pk {} pk, memo')"
    by auto
  then show "compute_max_depth pk by_pk = depth_on_path by_pk {} pk"
    by (simp add: compute_max_depth_def)
next
  assume "map_of by_pk pk = None"
  then show "compute_max_depth pk by_pk = 0"
    by (simp add: compute_max_depth_def depth_for_missing)
next
  fix data
  assume "map_of by_pk pk = Some data \<and> field data ''Sire'' = [] \<and> field data ''Dam'' = []"
  then show "compute_max_depth pk by_pk = 0"
    by (simp add: compute_max_depth_def depth_for_found [of Map.empty pk "{}" by_pk data])
qed

lemma rank_two_three_decreases:
  "\<forall>k x. x \<in> set (parent_links store_two_three k) \<longrightarrow> rank_two_three x < rank_two_three k"
  by (auto simp: parent_links_def store_two_three_def field_def strip_def is_space_def
      rank_two_three_def split: if_splits)

lemma cyclic_depths:
  "compute_max_depth ''A'' store_cyclic = 3" "depth_on_path store_cyclic {} ''A'' = 4"
  by code_simp+

lemma two_three_facts:
  "depth_on_path store_two_three {} ''S'' = 3"
  "map_of store_two_three ''G'' = None"
  "map_of store_both_sides ''G'' = Some [(''Sire'', ''''), (''Dam'', '''')]"
  "field [(''Sire'', ''''), (''Dam'', '''')] ''Sire'' = []"
  "field [(''Sire'', ''''), (''Dam'', '''')] ''Dam'' = []"
  by code_simp+

lemma depth_for_transparent_example:
  "compute_max_depth ''S'' store_two_three = 3
   \<and> depth_on_path store_two_three {} ''S'' = 3
   \<and> map_of store_two_three ''G'' = None
   \<and> compute_max_depth ''G'' store_two_three = 0
   \<and> map_of store_both_sides ''G'' = Some [(''Sire'', ''''), (''Dam'', '''')]
   \<and> compute_max_depth ''G'' store_both_sides = 0"
proof -
  have "compute_max_depth ''S'' store_two_three = depth_on_path store_two_three {} ''S''"
    using depth_for_transparent [of store_two_three rank_two_three "''S''", THEN conjunct1, THEN mp,
        OF rank_two_three_decreases] .
  then have a: "compute_max_depth ''S'' store_two_three = 3"
    by (simp only: two_three_facts)
  have b: "compute_max_depth ''G'' store_two_three = 0"
    using depth_for_transparent [of store_two_three rank_two_three "''G''", THEN conjunct2,
        THEN conjunct1, THEN mp, OF two_three_facts(2)] .
  have h: "map_of store_both_sides ''G'' = Some [(''Sire'', ''''), (''Dam'', '''')]
      \<and> field [(''Sire'', ''''), (''Dam'', '''')] ''Sire'' = []
      \<and> field [(''Sire'', ''''), (''Dam'', '''')] ''Dam'' = []"
    using two_three_facts(3,4,5) by (intro conjI)
  have c: "compute_max_depth ''G'' store_both_sides = 0"
    using depth_for_transparent [of store_both_sides rank_two_three "''G''", THEN conjunct2,
        THEN conjunct2, THEN spec, THEN mp, OF h] .
  from a two_three_facts(1) two_three_facts(2) b two_three_facts(3) c show ?thesis
    by (intro conjI)
qed

lemma cyclic_swapped_depths:
  "compute_max_depth ''A'' store_cyclic_swapped = 4"
  "depth_on_path store_cyclic_swapped {} ''A'' = 4"
  by code_simp+

lemma self_sire_depths:
  "compute_max_depth ''X'' store_self_sire = 1" "depth_on_path store_self_sire {} ''X'' = 1"
  by code_simp+

text \<open>
  C7. The recursion of the claim is \<open>depth_on_path\<close>: an identifier on the current path
  counts 0, a missing record counts 0, and otherwise the result is the maximum of 0, one
  more than the depth of the sire and one more than the depth of the dam. On the store
  \<open>store_cyclic\<close> it gives 4 for \<open>A\<close> (through \<open>Y\<close>, \<open>X\<close>, \<open>L1\<close>, \<open>L2\<close>), and the depth
  resolver returns 3: the walk through the sire \<open>X\<close> stores the depth 1 for \<open>Y\<close> in the
  memo while \<open>X\<close> is on the path, and the dam \<open>Y\<close> of \<open>A\<close> is then answered from the memo
  although \<open>X\<close> has left the path. With the sire and the dam of \<open>A\<close> exchanged the
  resolver returns 4: the result depends on the order of the two parent links.
\<close>

theorem depth_resolver_order_dependent:
  "compute_max_depth ''A'' store_cyclic = 3
   \<and> depth_on_path store_cyclic {} ''A'' = 4
   \<and> compute_max_depth ''A'' store_cyclic_swapped = 4
   \<and> depth_on_path store_cyclic_swapped {} ''A'' = 4"
  using cyclic_depths cyclic_swapped_depths by (intro conjI)

section \<open>The inbreeding analyzer with branch sides\<close>

lemma walk_side_skip:
  "g > M \<or> node \<in> v \<Longrightarrow> walk_side by_pk M node g p v sd occs = occs"
  by (subst walk_side.simps) auto

lemma walk_side_missing:
  "\<not> g > M \<Longrightarrow> node \<notin> v \<Longrightarrow> map_of by_pk node = None \<Longrightarrow>
     walk_side by_pk M node g p v sd occs =
       setdefault_append occs node \<lparr>gen = g, path = p @ [node], side = sd\<rparr>"
  by (subst walk_side.simps) (simp add: Let_def)

lemma walk_side_last:
  "\<not> g > M \<Longrightarrow> node \<notin> v \<Longrightarrow> \<not> g < M \<Longrightarrow>
     walk_side by_pk M node g p v sd occs =
       setdefault_append occs node \<lparr>gen = g, path = p @ [node], side = sd\<rparr>"
  by (subst walk_side.simps) (simp add: Let_def split: option.splits)

lemma walk_side_inner:
  "\<not> g > M \<Longrightarrow> node \<notin> v \<Longrightarrow> map_of by_pk node = Some data \<Longrightarrow> g < M \<Longrightarrow>
     walk_side by_pk M node g p v sd occs =
       (let o1 = setdefault_append occs node \<lparr>gen = g, path = p @ [node], side = sd\<rparr>;
            o2 = (if field data ''Sire'' \<noteq> []
                  then walk_side by_pk M (field data ''Sire'') (g + 1) (p @ [node])
                         (insert node v) sd o1
                  else o1)
        in if field data ''Dam'' \<noteq> []
           then walk_side by_pk M (field data ''Dam'') (g + 1) (p @ [node]) (insert node v) sd o2
           else o2)"
  by (subst walk_side.simps) (simp add: Let_def)

lemma walk_side_lineage:
  "walk_side by_pk M node g p v sd occs =
     foldl record_occurrence occs (map (with_side sd) (lineage by_pk M node g p v))"
proof (induction by_pk M node g p v sd occs rule: walk_side.induct)
  case (1 by_pk M node g p v sd occs)
  let ?x = "\<lparr>gen = g, path = p @ [node], side = sd\<rparr>"
  let ?o1 = "setdefault_append occs node ?x"
  have r: "record_occurrence occs (with_side sd \<lparr>gen = g, path = p @ [node]\<rparr>) = ?o1"
    by (simp add: record_occurrence_def with_side_def)
  show ?case
  proof (cases "g > M \<or> node \<in> v")
    case True
    then show ?thesis by (simp add: walk_side_skip lineage_skip)
  next
    case False
    then have ng: "\<not> g > M" and nv: "node \<notin> v" by auto
    show ?thesis
    proof (cases "map_of by_pk node")
      case None
      then show ?thesis using ng nv r
        by (simp add: walk_side_missing lineage_step parent_links_def)
    next
      case (Some data)
      show ?thesis
      proof (cases "g < M")
        case False
        then show ?thesis using ng nv r by (simp add: walk_side_last lineage_step)
      next
        case True
        note ih1 = "1.IH"(1) [OF ng nv refl refl Some True]
        note ih2 = "1.IH"(2) [OF ng nv refl refl Some True refl]
        show ?thesis using ih1 ih2 r True Some
          by (simp add: walk_side_inner [OF ng nv Some True] lineage_step [OF ng nv] Let_def
              parent_links_def)
      qed
    qed
  qed
qed

lemma collect_occurrences_side_lineage:
  "collect_occurrences_side pk by_pk M =
     foldl record_occurrence [] (lineage_sides_of_subject pk by_pk M)"
proof -
  have e: "field [] c = []" for c by (simp add: field_def strip_def)
  show ?thesis
    by (auto simp: collect_occurrences_side_def lineage_sides_of_subject_def Let_def
        walk_side_lineage e split: option.splits)
qed

lemma path_with_side [simp]: "path (with_side sd x) = path x"
  and gen_with_side [simp]: "gen (with_side sd x) = gen x"
  and side_with_side [simp]: "side (with_side sd x) = sd"
  by (simp_all add: with_side_def)

lemma lineage_sides_elem:
  assumes "x \<in> set (lineage_sides_of_subject pk by_pk M)"
  shows "path x \<noteq> [] \<and> distinct (path x)"
proof -
  from assms obtain y node where y: "y \<in> set (lineage by_pk M node 1 [] {})" "path x = path y"
    by (auto simp: lineage_sides_of_subject_def split: option.splits if_splits)
  from lineage_elem [OF y(1)] lineage_distinct [OF y(1)] y(2) show ?thesis by auto
qed

lemma map_of_aggregate_types:
  "distinct (map fst occs) \<Longrightarrow>
     map_of (aggregate_types occs d) k =
       (case map_of occs k of
          None \<Rightarrow> map_of d k
        | Some os \<Rightarrow> if 2 \<le> length os then Some (branch_type os) else map_of d k)"
proof (induction occs d rule: aggregate_types.induct)
  case (1 inbred_types)
  then show ?case by simp
next
  case (2 ancestor os rest inbred_types)
  then have nk: "map_of rest ancestor = None"
    by (simp add: map_of_eq_None_iff)
  show ?case
  proof (cases "length os < 2")
    case True
    then show ?thesis using 2 nk by (auto split: option.splits)
  next
    case False
    then show ?thesis using 2 nk by (auto simp: map_of_dict_set split: option.splits)
  qed
qed

lemma paths_ok_aggregate:
  assumes "\<And>x. x \<in> set xs \<Longrightarrow> path x \<noteq> [] \<and> distinct (path x)"
  shows "paths_ok (aggregate (foldl record_occurrence [] xs) [])"
  unfolding paths_ok_def
proof (intro allI impI ballI)
  fix a e p
  let ?occs = "foldl record_occurrence [] xs"
  assume e: "map_of (aggregate ?occs []) a = Some e" and p: "p \<in> set (paths e)"
  have d: "distinct (map fst ?occs)" by (simp add: distinct_foldl_record)
  from e obtain os where os: "map_of ?occs a = Some os" "e = make_entry os"
    by (auto simp: map_of_aggregate [OF d] split: option.splits if_splits)
  from os(1) have "os = filter (\<lambda>x. last (path x) = a) xs"
    by (simp add: map_of_foldl_record split: if_splits)
  with os(2) p obtain x where x: "x \<in> set xs" "last (path x) = a" "p = path x"
    by (auto simp: make_entry_def Let_def)
  from assms [OF x(1)] x(2,3) show "distinct p \<and> a \<in> set p"
    using last_in_set by blast
qed

lemma collect_inbreeding_image_eq:
  "collect_inbreeding_image pk by_pk M =
     Inr (aggregate (collect_occurrences_side pk by_pk M) [],
          {a. \<exists>e. map_of (aggregate (collect_occurrences_side pk by_pk M) []) a = Some e \<and>
            (\<exists>b \<in> fst ` set (aggregate (collect_occurrences_side pk by_pk M) []). b \<noteq> a
               \<and> (\<forall>p \<in> set (paths e). at_or_before p b a))},
          aggregate_types (collect_occurrences_side pk by_pk M) [])"
proof -
  have "paths_ok (aggregate (collect_occurrences_side pk by_pk M) [])"
    unfolding collect_occurrences_side_lineage
    by (rule paths_ok_aggregate) (rule lineage_sides_elem)
  from find_subsumed_eq [OF this] show ?thesis
    by (simp add: collect_inbreeding_image_def Let_def)
qed

lemma lineage_at_bound:
  "lineage by_pk M q M p v = (if q \<in> v then [] else [\<lparr>gen = M, path = p @ [q]\<rparr>])"
  by (subst lineage.simps) simp

lemma filter_concat_empty:
  assumes "\<And>x. x \<in> set xs \<Longrightarrow> filter P (f x) = []"
  shows "filter P (concat (map f xs)) = []"
  using assms by (induction xs) auto

lemma filter_concat_count:
  assumes "\<And>x. x \<in> set xs \<Longrightarrow> filter P (F x) = (if x = g then [y] else [])"
  shows "filter P (concat (map F xs)) = replicate (count_list xs g) y"
  using assms by (induction xs) auto

lemma scenario_parent:
  assumes "x \<in> set (parent_links by_pk f)" "g \<noteq> f"
    and "\<forall>x \<in> set (parent_links by_pk f). x \<noteq> g \<and> x \<noteq> f \<longrightarrow> g \<notin> set (parent_links by_pk x)"
  shows "filter (\<lambda>x. last (path x) = g) (lineage by_pk 3 x 2 [f] {f})
    = (if x = g then [\<lparr>gen = 2, path = [f, g]\<rparr>] else [])"
proof (cases "x = f")
  case True
  then have "lineage by_pk 3 x 2 [f] {f} = []" by (simp add: lineage_skip)
  then show ?thesis using True assms(2) by simp
next
  case False
  have l2: "lineage by_pk 3 x 2 [f] {f} =
      \<lparr>gen = 2, path = [f, x]\<rparr>
        # concat (map (\<lambda>q. lineage by_pk 3 q 3 [f, x] {f, x}) (parent_links by_pk x))"
    using False by (subst lineage.simps) (simp add: insert_commute)
  have top: "filter (\<lambda>y. last (path y) = g) (lineage by_pk 3 q 3 [f, x] {f, x}) = []"
    if "q \<in> set (parent_links by_pk x)" for q
  proof (cases "q = g")
    case True
    have "g \<in> {f, x}"
    proof (rule ccontr)
      assume "g \<notin> {f, x}"
      then have "x \<noteq> g" by auto
      with assms(1,3) False have "g \<notin> set (parent_links by_pk x)" by blast
      with that True show False by simp
    qed
    with True show ?thesis by (simp add: lineage_at_bound)
  next
    case False
    then show ?thesis by (simp add: lineage_at_bound)
  qed
  have "filter (\<lambda>y. last (path y) = g)
          (concat (map (\<lambda>q. lineage by_pk 3 q 3 [f, x] {f, x}) (parent_links by_pk x))) = []"
    by (rule filter_concat_empty) (rule top)
  then show ?thesis unfolding l2 by auto
qed

lemma scenario_branch:
  assumes "count_list (parent_links by_pk f) g = 1" "g \<noteq> f"
    and "\<forall>x \<in> set (parent_links by_pk f). x \<noteq> g \<and> x \<noteq> f \<longrightarrow> g \<notin> set (parent_links by_pk x)"
  shows "filter (\<lambda>x. last (path x) = g) (lineage by_pk 3 f 1 [] {}) = [\<lparr>gen = 2, path = [f, g]\<rparr>]"
proof -
  have l1: "lineage by_pk 3 f 1 [] {} =
      \<lparr>gen = 1, path = [f]\<rparr>
        # concat (map (\<lambda>x. lineage by_pk 3 x 2 [f] {f}) (parent_links by_pk f))"
    by (subst lineage.simps) simp
  have "filter (\<lambda>x. last (path x) = g)
          (concat (map (\<lambda>x. lineage by_pk 3 x 2 [f] {f}) (parent_links by_pk f)))
      = replicate (count_list (parent_links by_pk f) g) \<lparr>gen = 2, path = [f, g]\<rparr>"
    by (rule filter_concat_count) (rule scenario_parent [OF _ assms(2) assms(3)])
  then show ?thesis unfolding l1 using assms(1,2) by simp
qed

lemma parent_links_two:
  assumes "parent_links by_pk s = [f, m]"
  shows "\<exists>data. map_of by_pk s = Some data \<and> field data ''Sire'' = f \<and> field data ''Dam'' = m
    \<and> f \<noteq> [] \<and> m \<noteq> []"
  using assms by (auto simp: parent_links_def split: option.splits if_splits)

lemma at_or_before_pair:
  assumes "at_or_before [x, y] b a"
  shows "b = x \<or> b = y"
proof -
  from assms obtain i j where ij: "i \<le> j" "j < length [x, y]" "[x, y] ! i = b"
    unfolding at_or_before_def by blast
  then have "i = 0 \<or> i = 1" by auto
  with ij(3) show ?thesis by auto
qed

lemma filter_last_with_side:
  "filter (\<lambda>x. last (path x) = a) (map (with_side sd) xs)
     = map (with_side sd) (filter (\<lambda>x. last (path x) = a) xs)"
  by (induction xs) auto

lemma scenario_occurrences:
  assumes "parent_links by_pk s = [f, m]" "g \<noteq> f" "g \<noteq> m"
    and "count_list (parent_links by_pk f) g = 1"
    and "count_list (parent_links by_pk m) g = 1"
    and "\<forall>x \<in> set (parent_links by_pk f). x \<noteq> g \<and> x \<noteq> f \<longrightarrow> g \<notin> set (parent_links by_pk x)"
    and "\<forall>x \<in> set (parent_links by_pk m). x \<noteq> g \<and> x \<noteq> m \<longrightarrow> g \<notin> set (parent_links by_pk x)"
  shows "map_of (collect_occurrences_side s by_pk 3) g =
    Some [\<lparr>gen = 2, path = [f, g], side = ''Sire''\<rparr>, \<lparr>gen = 2, path = [m, g], side = ''Dam''\<rparr>]"
proof -
  from parent_links_two [OF assms(1)] obtain data where d: "map_of by_pk s = Some data"
    "field data ''Sire'' = f" "field data ''Dam'' = m" "f \<noteq> []" "m \<noteq> []"
    by blast
  have L: "lineage_sides_of_subject s by_pk 3 =
      map (with_side ''Sire'') (lineage by_pk 3 f 1 [] {})
      @ map (with_side ''Dam'') (lineage by_pk 3 m 1 [] {})"
    using d by (simp add: lineage_sides_of_subject_def)
  have "filter (\<lambda>x. last (path x) = g) (lineage_sides_of_subject s by_pk 3) =
      [with_side ''Sire'' \<lparr>gen = 2, path = [f, g]\<rparr>, with_side ''Dam'' \<lparr>gen = 2, path = [m, g]\<rparr>]"
    unfolding L filter_append filter_last_with_side
      scenario_branch [OF assms(4) assms(2) assms(6)]
      scenario_branch [OF assms(5) assms(3) assms(7)]
    by simp
  then show ?thesis
    by (simp add: collect_occurrences_side_lineage map_of_foldl_record with_side_def)
qed

lemma scenario_entry:
  "make_entry [\<lparr>gen = 2, path = [f, g], side = ''Sire''\<rparr>, \<lparr>gen = 2, path = [m, g], side = ''Dam''\<rparr>]
     = \<lparr>gens = [2, 2], percentage = 50, paths = [[f, g], [m, g]]\<rparr>"
  by (simp add: make_entry_def power2_eq_square)

lemma scenario_type:
  "branch_type [\<lparr>gen = 2, path = [f, g], side = ''Sire''\<rparr>, \<lparr>gen = 2, path = [m, g], side = ''Dam''\<rparr>]
     = ''both''"
proof -
  have "{''Sire'', ''Dam''} \<noteq> {''Sire''}" "{''Sire'', ''Dam''} \<noteq> {''Dam''}"
    by auto
  then show ?thesis by (simp add: branch_type_def)
qed

text \<open>
  C4, as the code has it. In a record store where the subject \<open>s\<close> has sire \<open>f\<close> and
  dam \<open>m\<close>, two different identifiers, and \<open>g\<close> is at generation 2 on both sides and
  nowhere else within the bound (\<open>g\<close> is one of the parent links of \<open>f\<close> and one of
  those of \<open>m\<close>, and no other parent of \<open>f\<close> or \<open>m\<close> has \<open>g\<close> as a parent), the
  analyzer of \<^verbatim>\<open>make_pedigree_image.py\<close> with bound 3 returns a report that holds \<open>g\<close>
  with the generations \<open>[2, 2]\<close>, the percentage 50 (not 25), the paths \<open>[f, g]\<close> and
  \<open>[m, g]\<close> and the branch type \<open>both\<close>; \<open>g\<close> is not subsumed and stays in the final
  report. The other parents of \<open>f\<close> and \<open>m\<close> and the ancestry of \<open>g\<close> are arbitrary.
\<close>

theorem both_sides_scenario:
  assumes "parent_links by_pk s = [f, m]" "f \<noteq> m" "g \<noteq> f" "g \<noteq> m"
    and "count_list (parent_links by_pk f) g = 1"
    and "count_list (parent_links by_pk m) g = 1"
    and "\<forall>x \<in> set (parent_links by_pk f). x \<noteq> g \<and> x \<noteq> f \<longrightarrow> g \<notin> set (parent_links by_pk x)"
    and "\<forall>x \<in> set (parent_links by_pk m). x \<noteq> g \<and> x \<noteq> m \<longrightarrow> g \<notin> set (parent_links by_pk x)"
  shows "\<exists>inbred subsumed inbred_types.
     collect_inbreeding_image s by_pk 3 = Inr (inbred, subsumed, inbred_types)
   \<and> map_of inbred g = Some \<lparr>gens = [2, 2], percentage = 50, paths = [[f, g], [m, g]]\<rparr>
   \<and> map_of inbred_types g = Some ''both''
   \<and> g \<notin> subsumed
   \<and> g \<in> inbred_pks inbred subsumed"
proof -
  let ?occs = "collect_occurrences_side s by_pk 3"
  let ?inbred = "aggregate ?occs []"
  let ?types = "aggregate_types ?occs []"
  let ?S = "{a. \<exists>e. map_of ?inbred a = Some e \<and>
            (\<exists>b \<in> fst ` set ?inbred. b \<noteq> a \<and> (\<forall>p \<in> set (paths e). at_or_before p b a))}"
  let ?os = "[\<lparr>gen = 2, path = [f, g], side = ''Sire''\<rparr>,
              \<lparr>gen = 2, path = [m, g], side = ''Dam''\<rparr>]"
  have o: "map_of ?occs g = Some ?os"
    using assms(1,3,4,5,6,7,8) by (rule scenario_occurrences)
  have d: "distinct (map fst ?occs)"
    by (simp add: collect_occurrences_side_lineage distinct_foldl_record)
  have i: "map_of ?inbred g = Some \<lparr>gens = [2, 2], percentage = 50, paths = [[f, g], [m, g]]\<rparr>"
    by (simp add: map_of_aggregate [OF d] o scenario_entry)
  have t: "map_of ?types g = Some ''both''"
    by (simp add: map_of_aggregate_types [OF d] o scenario_type)
  have n: "g \<notin> ?S"
  proof
    assume "g \<in> ?S"
    then obtain b where b: "b \<noteq> g" "at_or_before [f, g] b g" "at_or_before [m, g] b g"
      using i by auto
    from at_or_before_pair [OF b(2)] at_or_before_pair [OF b(3)] b(1) have "f = m" by auto
    with assms(2) show False by simp
  qed
  have k: "g \<in> fst ` set ?inbred"
    using i by (metis domI dom_map_of_conv_image_fst)
  have p: "g \<in> inbred_pks ?inbred ?S"
    using k n by (simp add: inbred_pks_def)
  show ?thesis
    unfolding collect_inbreeding_image_eq
    by (intro exI [of _ ?inbred] exI [of _ ?S] exI [of _ ?types] conjI refl i t n p)
qed

lemma two_parents_links:
  "parent_links store_two_parents ''S'' = [''F'', ''M'']"
  "''F'' \<noteq> ''M''" "''G'' \<noteq> ''F''" "''G'' \<noteq> ''M''"
  "count_list (parent_links store_two_parents ''F'') ''G'' = 1"
  "count_list (parent_links store_two_parents ''M'') ''G'' = 1"
  "\<forall>x \<in> set (parent_links store_two_parents ''F'').
      x \<noteq> ''G'' \<and> x \<noteq> ''F'' \<longrightarrow> ''G'' \<notin> set (parent_links store_two_parents x)"
  "\<forall>x \<in> set (parent_links store_two_parents ''M'').
      x \<noteq> ''G'' \<and> x \<noteq> ''M'' \<longrightarrow> ''G'' \<notin> set (parent_links store_two_parents x)"
  by code_simp+

lemma two_parents_example:
  "collect_inbreeding_image ''S'' store_two_parents 3 =
     Inr ([(''G'', \<lparr>gens = [2, 2], percentage = 50,
                   paths = [[''F'', ''G''], [''M'', ''G'']]\<rparr>),
           (''GS'', \<lparr>gens = [3, 3], percentage = 25,
                   paths = [[''F'', ''G'', ''GS''], [''M'', ''G'', ''GS'']]\<rparr>),
           (''GD'', \<lparr>gens = [3, 3], percentage = 25,
                   paths = [[''F'', ''G'', ''GD''], [''M'', ''G'', ''GD'']]\<rparr>)],
          {''GS'', ''GD''},
          [(''G'', ''both''), (''GS'', ''both''), (''GD'', ''both'')])"
  by code_simp

lemma both_sides_example:
  "collect_inbreeding_image ''S'' store_both_sides 3 =
     Inr ([(''G'', \<lparr>gens = [2, 2], percentage = 50,
                   paths = [[''F'', ''G''], [''M'', ''G'']]\<rparr>)],
          {}, [(''G'', ''both'')])"
  by code_simp

theorem both_sides_scenario_witness:
  "parent_links store_two_parents ''S'' = [''F'', ''M'']
   \<and> parent_links store_two_parents ''F'' = [''G'', ''D1'']
   \<and> parent_links store_two_parents ''M'' = [''G'', ''D2'']
   \<and> parent_links store_two_parents ''D1'' = []
   \<and> parent_links store_two_parents ''D2'' = []
   \<and> map_option (map_option percentage)
        (map_option (\<lambda>r. map_of (fst r) ''G'')
           (case collect_inbreeding_image ''S'' store_two_parents 3 of
              Inl e \<Rightarrow> None | Inr r \<Rightarrow> Some r)) = Some (Some 50)
   \<and> ''G'' \<in> inbred_pks
        (fst (projr (collect_inbreeding_image ''S'' store_two_parents 3)))
        (fst (snd (projr (collect_inbreeding_image ''S'' store_two_parents 3))))"
proof -
  obtain inbred subsumed inbred_types where
    r: "collect_inbreeding_image ''S'' store_two_parents 3 = Inr (inbred, subsumed, inbred_types)"
    and i: "map_of inbred ''G'' =
        Some \<lparr>gens = [2, 2], percentage = 50, paths = [[''F'', ''G''], [''M'', ''G'']]\<rparr>"
    and p: "''G'' \<in> inbred_pks inbred subsumed"
    using both_sides_scenario [OF two_parents_links]
    by (elim exE conjE) (rule that)
  have l: "parent_links store_two_parents ''F'' = [''G'', ''D1'']"
    "parent_links store_two_parents ''M'' = [''G'', ''D2'']"
    "parent_links store_two_parents ''D1'' = []"
    "parent_links store_two_parents ''D2'' = []"
    by code_simp+
  have a: "map_option (map_option percentage)
        (map_option (\<lambda>r. map_of (fst r) ''G'')
           (case collect_inbreeding_image ''S'' store_two_parents 3 of
              Inl e \<Rightarrow> None | Inr r \<Rightarrow> Some r)) = Some (Some 50)"
    unfolding r using i by simp
  have b: "''G'' \<in> inbred_pks
        (fst (projr (collect_inbreeding_image ''S'' store_two_parents 3)))
        (fst (snd (projr (collect_inbreeding_image ''S'' store_two_parents 3))))"
    unfolding r using p by simp
  from two_parents_links(1) l a b show ?thesis
    by (intro conjI)
qed

theorem both_sides_scenario_counterexample:
  "collect_inbreeding_image ''S'' store_both_sides 3 =
     Inr ([(''G'', \<lparr>gens = [2, 2], percentage = 50,
                   paths = [[''F'', ''G''], [''M'', ''G'']]\<rparr>)],
          {}, [(''G'', ''both'')])
   \<and> (50 :: rat) \<noteq> 25"
proof -
  have "(50 :: rat) \<noteq> 25" by simp
  with both_sides_example show ?thesis by (intro conjI)
qed

end
